theory Spec2Isabelle
  imports Main "HOL-Library.AList"
begin

section \<open>Schema descriptor\<close>

text \<open>
  Table names are Python strings. The three module-level constants of
  \<^verbatim>\<open>generate_data.py\<close> are kept as they are written: \<^verbatim>\<open>ALL_TABLES\<close> is a list,
  \<^verbatim>\<open>DEFAULT_COUNTS\<close> and \<^verbatim>\<open>TABLE_DEPENDENCIES\<close> are dictionaries, held here as
  association lists in the order of the source.
\<close>

definition ALL_TABLES :: "string list" where
  "ALL_TABLES = [''companies'', ''contacts'', ''deals'', ''products'',
     ''deal_products'', ''activities'', ''notes'', ''tasks'']"

definition DEFAULT_COUNTS :: "(string \<times> int) list" where
  "DEFAULT_COUNTS = [(''companies'', 100), (''contacts'', 500), (''deals'', 200),
     (''products'', 50), (''deal_products'', 300), (''activities'', 400),
     (''notes'', 300), (''tasks'', 150)]"

definition TABLE_DEPENDENCIES :: "(string \<times> string list) list" where
  "TABLE_DEPENDENCIES = [(''companies'', []), (''contacts'', [''companies'']),
     (''deals'', [''companies'', ''contacts'']), (''products'', []),
     (''deal_products'', [''deals'', ''products'']), (''activities'', [''contacts'']),
     (''notes'', [''contacts'']), (''tasks'', [''deals''])]"

text \<open>\<^verbatim>\<open>d.get(k, default)\<close> on a dictionary.\<close>

definition dict_get :: "('k \<times> 'v) list \<Rightarrow> 'k \<Rightarrow> 'v \<Rightarrow> 'v" where
  "dict_get d k dflt = (case map_of d k of None \<Rightarrow> dflt | Some v \<Rightarrow> v)"

text \<open>\<^verbatim>\<open>TABLE_DEPENDENCIES.get(table, [])\<close>, the expression both loops of the resolver use.\<close>

definition table_deps :: "string \<Rightarrow> string list" where
  "table_deps table = dict_get TABLE_DEPENDENCIES table []"

section \<open>Dependency resolver\<close>

text \<open>
  \<^verbatim>\<open>resolve_dependencies\<close> works on Python sets (\<^verbatim>\<open>to_generate\<close>, \<^verbatim>\<open>remaining\<close>). A
  set is held as a list without duplicates; only membership, insertion and removal
  are used on it, apart from the snapshot \<^verbatim>\<open>list(to_generate)\<close> the closure loop
  iterates over. The snapshot is a parameter of \<open>closure_pass\<close>, so the lemmas on one
  pass hold for every order in which Python may enumerate the set.

  The inner loop \<^verbatim>\<open>for dep in TABLE_DEPENDENCIES.get(table, [])\<close>; the state is the
  pair of \<^verbatim>\<open>to_generate\<close> and the flag \<^verbatim>\<open>added\<close>.
\<close>

fun add_deps :: "string list \<Rightarrow> string list \<times> bool \<Rightarrow> string list \<times> bool" where
  "add_deps [] s = s"
| "add_deps (dep # deps) (to_generate, added) =
     (if dep \<notin> set to_generate then add_deps deps (to_generate @ [dep], True)
      else add_deps deps (to_generate, added))"

text \<open>The outer loop \<^verbatim>\<open>for table in list(to_generate)\<close> over the snapshot.\<close>

fun closure_pass :: "string list \<Rightarrow> string list \<times> bool \<Rightarrow> string list \<times> bool" where
  "closure_pass [] s = s"
| "closure_pass (table # snapshot) s = closure_pass snapshot (add_deps (table_deps table) s)"

text \<open>
  One pass of the ordering loop, \<^verbatim>\<open>for table in ALL_TABLES\<close>: the first table that is
  still in \<^verbatim>\<open>remaining\<close> and whose dependencies are each in \<^verbatim>\<open>ordered\<close> or outside
  \<^verbatim>\<open>to_generate\<close> is appended and removed, and the \<^verbatim>\<open>break\<close> ends the pass.
\<close>

fun order_pass :: "string list \<Rightarrow> string list \<Rightarrow> string list \<times> string list
    \<Rightarrow> string list \<times> string list" where
  "order_pass [] to_generate s = s"
| "order_pass (table # tables) to_generate (ordered, remaining) =
     (if table \<in> set remaining then
        (if list_all (\<lambda>d. d \<in> set ordered \<or> d \<notin> set to_generate) (table_deps table)
         then (ordered @ [table], removeAll table remaining)
         else order_pass tables to_generate (ordered, remaining))
      else order_pass tables to_generate (ordered, remaining))"

text \<open>
  \<^verbatim>\<open>while remaining:\<close> has no exit other than an empty \<^verbatim>\<open>remaining\<close>, so it is a
  partial function: \<open>None\<close> stands for a loop that never returns.
\<close>

partial_function (option) order_loop ::
    "string list \<Rightarrow> string list \<Rightarrow> string list \<Rightarrow> string list option" where
  "order_loop to_generate ordered remaining =
     (if remaining = [] then Some ordered
      else case order_pass ALL_TABLES to_generate (ordered, remaining) of
             (ordered', remaining') \<Rightarrow> order_loop to_generate ordered' remaining')"

lemma table_deps_known: "set (table_deps t) \<subseteq> set ALL_TABLES"
  by (auto simp: table_deps_def dict_get_def TABLE_DEPENDENCIES_def ALL_TABLES_def)

lemma add_deps_set:
  "set (fst (add_deps ds (tg, a))) = set tg \<union> set ds"
  by (induction ds arbitrary: tg a) auto

lemma add_deps_flag:
  "snd (add_deps ds (tg, a)) = (a \<or> \<not> set ds \<subseteq> set tg)"
  by (induction ds arbitrary: tg a) auto

lemma add_deps_distinct:
  "distinct tg \<Longrightarrow> distinct (fst (add_deps ds (tg, a)))"
  by (induction ds arbitrary: tg a) auto

lemma closure_pass_set:
  "set (fst (closure_pass snap (tg, a))) = set tg \<union> (\<Union>t\<in>set snap. set (table_deps t))"
proof (induction snap arbitrary: tg a)
  case Nil
  then show ?case by simp
next
  case (Cons t snap)
  obtain tg' a' where s: "add_deps (table_deps t) (tg, a) = (tg', a')"
    by (cases "add_deps (table_deps t) (tg, a)")
  have "set tg' = set tg \<union> set (table_deps t)"
    using add_deps_set [of "table_deps t" tg a] s by simp
  with Cons.IH [of tg' a'] s show ?case by auto
qed

lemma closure_pass_flag:
  "snd (closure_pass snap (tg, a)) = (a \<or> \<not> (\<Union>t\<in>set snap. set (table_deps t)) \<subseteq> set tg)"
proof (induction snap arbitrary: tg a)
  case Nil
  then show ?case by simp
next
  case (Cons t snap)
  obtain tg' a' where s: "add_deps (table_deps t) (tg, a) = (tg', a')"
    by (cases "add_deps (table_deps t) (tg, a)")
  have 1: "set tg' = set tg \<union> set (table_deps t)"
    using add_deps_set [of "table_deps t" tg a] s by simp
  have 2: "a' = (a \<or> \<not> set (table_deps t) \<subseteq> set tg)"
    using add_deps_flag [of "table_deps t" tg a] s by simp
  from Cons.IH [of tg' a'] s 1 2 show ?case by auto
qed

lemma closure_pass_distinct:
  "distinct tg \<Longrightarrow> distinct (fst (closure_pass snap (tg, a)))"
proof (induction snap arbitrary: tg a)
  case Nil
  then show ?case by simp
next
  case (Cons t snap)
  obtain tg' a' where s: "add_deps (table_deps t) (tg, a) = (tg', a')"
    by (cases "add_deps (table_deps t) (tg, a)")
  have "distinct tg'"
    using add_deps_distinct [OF Cons.prems, of "table_deps t" a] s by simp
  from Cons.IH [OF this, of a'] s show ?case by simp
qed

lemma closure_pass_progress:
  assumes "closure_pass snap (tg, False) = (tg', True)"
  shows "card (set ALL_TABLES - set tg') < card (set ALL_TABLES - set tg)"
proof -
  let ?D = "\<Union>t\<in>set snap. set (table_deps t)"
  have s: "set tg' = set tg \<union> ?D"
    using closure_pass_set [of snap tg False] assms by simp
  have "\<not> ?D \<subseteq> set tg"
    using closure_pass_flag [of snap tg False] assms by simp
  then obtain d where d: "d \<in> ?D" "d \<notin> set tg" by blast
  have "d \<in> set ALL_TABLES" using d(1) table_deps_known by blast
  then have "set ALL_TABLES - set tg' \<subset> set ALL_TABLES - set tg"
    using s d by blast
  then show ?thesis
    by (simp add: psubset_card_mono)
qed

text \<open>
  The closure loop \<^verbatim>\<open>while added:\<close>. A pass that sets \<^verbatim>\<open>added\<close> has put a table of
  \<^verbatim>\<open>ALL_TABLES\<close> into \<^verbatim>\<open>to_generate\<close> that was not there, so the loop ends.
\<close>

function closure_loop :: "string list \<Rightarrow> string list" where
  "closure_loop to_generate =
     (case closure_pass to_generate (to_generate, False) of
        (to_generate', added) \<Rightarrow> if added then closure_loop to_generate' else to_generate')"
  by pat_completeness auto
termination
  by (relation "measure (\<lambda>tg. card (set ALL_TABLES - set tg))")
     (auto dest: closure_pass_progress [OF sym])

declare closure_loop.simps [simp del]
declare order_loop.simps [code]

text \<open>
  \<^verbatim>\<open>resolve_dependencies(tables, include_deps=True)\<close>. \<^verbatim>\<open>set(tables)\<close> drops the
  duplicates of the argument; \<^verbatim>\<open>remaining = to_generate.copy()\<close>.
\<close>

definition resolve_dependencies :: "string list \<Rightarrow> bool \<Rightarrow> string list option" where
  "resolve_dependencies tables include_deps =
     (if \<not> include_deps then Some tables
      else let to_generate = closure_loop (remdups tables)
           in order_loop to_generate [] to_generate)"



subsection \<open>What the resolver computes\<close>

text \<open>
  \<open>deps_first seen ts\<close>: every table of \<open>ts\<close> has its dependencies among \<open>seen\<close> and the
  tables before it. \<open>dep_closure R\<close> is the transitive closure of \<open>R\<close> under
  \<^verbatim>\<open>TABLE_DEPENDENCIES\<close>: the tables reachable from \<open>R\<close> along dependency edges.
\<close>

fun deps_first :: "string list \<Rightarrow> string list \<Rightarrow> bool" where
  "deps_first seen [] = True"
| "deps_first seen (t # ts) = (set (table_deps t) \<subseteq> set seen \<and> deps_first (seen @ [t]) ts)"

definition dep_closure :: "string set \<Rightarrow> string set" where
  "dep_closure R = {(t, d). d \<in> set (table_deps t)}\<^sup>* `` R"

lemma deps_first_split:
  "deps_first seen (pre @ t # post) \<Longrightarrow> set (table_deps t) \<subseteq> set seen \<union> set pre"
proof (induction pre arbitrary: seen)
  case Nil
  then show ?case by simp
next
  case (Cons a pre)
  then have "deps_first (seen @ [a]) (pre @ t # post)" by simp
  from Cons.IH [OF this] show ?case by auto
qed

lemma ALL_TABLES_deps_first: "deps_first [] ALL_TABLES"
  by (simp add: ALL_TABLES_def table_deps_def dict_get_def TABLE_DEPENDENCIES_def)

lemma ALL_TABLES_distinct: "distinct ALL_TABLES"
  by (simp add: ALL_TABLES_def)

lemma ALL_TABLES_split_deps:
  "ALL_TABLES = pre @ t # post \<Longrightarrow> set (table_deps t) \<subseteq> set pre"
  using deps_first_split [of "[]" pre t post] ALL_TABLES_deps_first by simp

lemma order_pass_first:
  assumes "set pre \<inter> set remaining = {}" "t \<in> set remaining"
    "list_all (\<lambda>d. d \<in> set ordered \<or> d \<notin> set tg) (table_deps t)"
  shows "order_pass (pre @ t # post) tg (ordered, remaining) = (ordered @ [t], removeAll t remaining)"
  using assms by (induction pre) auto

lemma order_loop_suffix:
  assumes "ALL_TABLES = pre @ post" "set remaining = set tg \<inter> set post"
    "set tg \<inter> set pre \<subseteq> set ordered"
  shows "order_loop tg ordered remaining = Some (ordered @ filter (\<lambda>t. t \<in> set tg) post)"
  using assms
proof (induction post arbitrary: pre ordered remaining)
  case Nil
  then have "remaining = []" by simp
  then show ?case by (simp add: order_loop.simps)
next
  case (Cons t post)
  have split: "ALL_TABLES = (pre @ [t]) @ post" using Cons.prems(1) by simp
  have dist: "t \<notin> set pre" "t \<notin> set post"
    using ALL_TABLES_distinct unfolding Cons.prems(1) by auto
  show ?case
  proof (cases "t \<in> set tg")
    case True
    then have tr: "t \<in> set remaining" using Cons.prems(2) by simp
    have disj: "set pre \<inter> set remaining = {}"
      using dist Cons.prems(2) ALL_TABLES_distinct unfolding Cons.prems(1) by auto
    have "set (table_deps t) \<subseteq> set pre"
      using ALL_TABLES_split_deps [OF Cons.prems(1)] .
    then have ok: "list_all (\<lambda>d. d \<in> set ordered \<or> d \<notin> set tg) (table_deps t)"
      using Cons.prems(3) by (auto simp: list_all_iff)
    have pass: "order_pass ALL_TABLES tg (ordered, remaining) = (ordered @ [t], removeAll t remaining)"
      using order_pass_first [OF disj tr ok, of post] Cons.prems(1) by simp
    have r: "set (removeAll t remaining) = set tg \<inter> set post"
      using Cons.prems(2) dist by auto
    have o: "set tg \<inter> set (pre @ [t]) \<subseteq> set (ordered @ [t])"
      using Cons.prems(3) by auto
    have "order_loop tg ordered remaining = order_loop tg (ordered @ [t]) (removeAll t remaining)"
      using tr pass by (subst order_loop.simps) auto
    also have "\<dots> = Some ((ordered @ [t]) @ filter (\<lambda>t. t \<in> set tg) post)"
      using Cons.IH [OF split r o] .
    finally show ?thesis using True by simp
  next
    case False
    have r: "set remaining = set tg \<inter> set post" using Cons.prems(2) False by auto
    have o: "set tg \<inter> set (pre @ [t]) \<subseteq> set ordered" using Cons.prems(3) False by auto
    from Cons.IH [OF split r o] False show ?thesis by simp
  qed
qed

lemma order_loop_known:
  "set tg \<subseteq> set ALL_TABLES \<Longrightarrow>
   order_loop tg [] tg = Some (filter (\<lambda>t. t \<in> set tg) ALL_TABLES)"
  using order_loop_suffix [of "[]" ALL_TABLES tg tg "[]"] by auto

lemma dep_closure_extensive: "R \<subseteq> dep_closure R"
  by (auto simp: dep_closure_def)

lemma dep_closure_step: "t \<in> dep_closure R \<Longrightarrow> set (table_deps t) \<subseteq> dep_closure R"
  unfolding dep_closure_def by (auto intro: rtrancl_into_rtrancl)

lemma dep_closure_least:
  assumes "R \<subseteq> S" "\<And>t. t \<in> S \<Longrightarrow> set (table_deps t) \<subseteq> S"
  shows "dep_closure R \<subseteq> S"
proof
  fix x assume "x \<in> dep_closure R"
  then obtain r where r: "r \<in> R" "(r, x) \<in> {(t, d). d \<in> set (table_deps t)}\<^sup>*"
    by (auto simp: dep_closure_def)
  from r(2) show "x \<in> S"
    by (induction rule: rtrancl_induct) (use r(1) assms in auto)
qed

lemma dep_closure_known: "R \<subseteq> set ALL_TABLES \<Longrightarrow> dep_closure R \<subseteq> set ALL_TABLES"
  using table_deps_known by (intro dep_closure_least) auto

lemma closure_loop_set: "set (closure_loop tg) = dep_closure (set tg)"
proof (induction tg rule: closure_loop.induct)
  case (1 tg)
  obtain tg' added where p: "closure_pass tg (tg, False) = (tg', added)"
    by (cases "closure_pass tg (tg, False)")
  let ?D = "\<Union>t\<in>set tg. set (table_deps t)"
  have s: "set tg' = set tg \<union> ?D"
    using closure_pass_set [of tg tg False] p by simp
  have a: "added = (\<not> ?D \<subseteq> set tg)"
    using closure_pass_flag [of tg tg False] p by simp
  have sub: "set tg' \<subseteq> dep_closure (set tg)"
    using s dep_closure_extensive [of "set tg"] dep_closure_step [of _ "set tg"] by auto
  show ?case
  proof (cases added)
    case True
    have "set (closure_loop tg') = dep_closure (set tg')"
      using 1 [OF p [symmetric] True] .
    moreover have "dep_closure (set tg') = dep_closure (set tg)"
    proof
      show "dep_closure (set tg') \<subseteq> dep_closure (set tg)"
        using sub dep_closure_step by (intro dep_closure_least) auto
      show "dep_closure (set tg) \<subseteq> dep_closure (set tg')"
        using s dep_closure_extensive [of "set tg'"] dep_closure_step
        by (intro dep_closure_least) auto
    qed
    ultimately show ?thesis using p True by (subst closure_loop.simps) simp
  next
    case False
    then have closed: "\<And>t. t \<in> set tg \<Longrightarrow> set (table_deps t) \<subseteq> set tg" using a by auto
    have "dep_closure (set tg) \<subseteq> set tg"
      using closed by (intro dep_closure_least) auto
    then have "dep_closure (set tg) = set tg" using dep_closure_extensive by blast
    moreover have "set tg' = set tg" using s a False by auto
    ultimately show ?thesis using p False by (subst closure_loop.simps) simp
  qed
qed

lemma filter_nth_split:
  "i < length (filter P xs) \<Longrightarrow>
   \<exists>pre post. xs = pre @ filter P xs ! i # post \<and> take i (filter P xs) = filter P pre"
proof (induction xs arbitrary: i)
  case Nil
  then show ?case by simp
next
  case (Cons x xs)
  show ?case
  proof (cases "P x")
    case False
    with Cons.prems have "i < length (filter P xs)" by simp
    from Cons.IH [OF this] obtain pre post
      where "xs = pre @ filter P xs ! i # post" "take i (filter P xs) = filter P pre" by blast
    then have "x # xs = (x # pre) @ filter P (x # xs) ! i # post \<and>
        take i (filter P (x # xs)) = filter P (x # pre)"
      using False by simp
    then show ?thesis by blast
  next
    case True
    show ?thesis
    proof (cases i)
      case 0
      then have "x # xs = [] @ filter P (x # xs) ! i # xs \<and>
          take i (filter P (x # xs)) = filter P []"
        using True by simp
      then show ?thesis by blast
    next
      case (Suc j)
      with Cons.prems True have "j < length (filter P xs)" by simp
      from Cons.IH [OF this] obtain pre post
        where "xs = pre @ filter P xs ! j # post" "take j (filter P xs) = filter P pre" by blast
      then have "x # xs = (x # pre) @ filter P (x # xs) ! i # post \<and>
          take i (filter P (x # xs)) = filter P (x # pre)"
        using True Suc by simp
      then show ?thesis by blast
    qed
  qed
qed

lemma resolve_known:
  assumes "set R \<subseteq> set ALL_TABLES"
  shows "resolve_dependencies R True = Some (filter (\<lambda>t. t \<in> dep_closure (set R)) ALL_TABLES)"
proof -
  have "set (closure_loop (remdups R)) = dep_closure (set R)"
    by (simp add: closure_loop_set)
  moreover have "dep_closure (set R) \<subseteq> set ALL_TABLES"
    using assms by (rule dep_closure_known)
  ultimately show ?thesis
    using order_loop_known [of "closure_loop (remdups R)"]
    by (simp add: resolve_dependencies_def Let_def)
qed

lemma order_loop_stuck:
  assumes "order_loop tg ordered remaining = Some ys"
  shows "remaining = [] \<or> order_pass ALL_TABLES tg (ordered, remaining) \<noteq> (ordered, remaining)"
proof (rule order_loop.raw_induct [where P = "\<lambda>tg ordered remaining ys.
    remaining = [] \<or> order_pass ALL_TABLES tg (ordered, remaining) \<noteq> (ordered, remaining)",
    OF _ assms])
  fix loop tg ordered remaining ys
  assume IH: "\<And>tg ordered remaining ys. loop tg ordered remaining = Some ys \<Longrightarrow>
      remaining = [] \<or> order_pass ALL_TABLES tg (ordered, remaining) \<noteq> (ordered, remaining)"
    and eq: "(if remaining = [] then Some ordered
      else case order_pass ALL_TABLES tg (ordered, remaining) of
             (ordered', remaining') \<Rightarrow> loop tg ordered' remaining') = Some ys"
  show "remaining = [] \<or> order_pass ALL_TABLES tg (ordered, remaining) \<noteq> (ordered, remaining)"
  proof (rule ccontr)
    assume "\<not> ?thesis"
    then have n: "remaining \<noteq> []"
      and p: "order_pass ALL_TABLES tg (ordered, remaining) = (ordered, remaining)" by auto
    from eq n p have "loop tg ordered remaining = Some ys" by simp
    from IH [OF this] n p show False by simp
  qed
qed

lemma order_loop_never:
  "remaining \<noteq> [] \<Longrightarrow> order_pass ALL_TABLES tg (ordered, remaining) = (ordered, remaining)
   \<Longrightarrow> order_loop tg ordered remaining = None"
  using order_loop_stuck [of tg ordered remaining] by (cases "order_loop tg ordered remaining") auto


lemma resolve_example:
  "resolve_dependencies [''tasks'', ''notes''] True =
     Some [''companies'', ''contacts'', ''deals'', ''notes'', ''tasks'']"
  by code_simp

subsection \<open>Claims on the resolver\<close>

text \<open>
  C1. For every requested list \<open>R\<close> of names of the eight tables,
  \<^verbatim>\<open>resolve_dependencies(R, include_deps=True)\<close> returns a sequence whose set of elements is
  the transitive closure of \<open>R\<close> under \<^verbatim>\<open>TABLE_DEPENDENCIES\<close>, and every dependency of the
  table at position \<open>i\<close> that occurs in the sequence occurs before position \<open>i\<close>.
\<close>

theorem C1_closure_and_order:
  assumes "set R \<subseteq> set ALL_TABLES"
  shows "\<exists>plan. resolve_dependencies R True = Some plan
           \<and> set plan = dep_closure (set R)
           \<and> (\<forall>i < length plan. \<forall>d \<in> set (table_deps (plan ! i)).
                 d \<in> set plan \<longrightarrow> d \<in> set (take i plan))"
proof -
  let ?P = "\<lambda>t. t \<in> dep_closure (set R)"
  let ?plan = "filter ?P ALL_TABLES"
  have r: "resolve_dependencies R True = Some ?plan"
    using assms by (rule resolve_known)
  have "dep_closure (set R) \<subseteq> set ALL_TABLES"
    using assms by (rule dep_closure_known)
  then have s: "set ?plan = dep_closure (set R)" by auto
  have o: "d \<in> set (take i ?plan)"
    if i: "i < length ?plan" and d: "d \<in> set (table_deps (?plan ! i))" "d \<in> set ?plan"
    for i d
  proof -
    from filter_nth_split [OF i] obtain pre post
      where sp: "ALL_TABLES = pre @ ?plan ! i # post" and tk: "take i ?plan = filter ?P pre"
      by blast
    have "d \<in> set pre" using ALL_TABLES_split_deps [OF sp] d(1) by blast
    moreover have "?P d" using d(2) by simp
    ultimately show ?thesis using tk by simp
  qed
  show ?thesis using r s o by blast
qed

theorem C1_closure_and_order_witness:
  "set [''deal_products''] \<subseteq> set ALL_TABLES
   \<and> (\<exists>plan. resolve_dependencies [''deal_products''] True = Some plan
           \<and> set plan = dep_closure (set [''deal_products''])
           \<and> (\<forall>i < length plan. \<forall>d \<in> set (table_deps (plan ! i)).
                 d \<in> set plan \<longrightarrow> d \<in> set (take i plan)))"
proof -
  have h: "set [''deal_products''] \<subseteq> set ALL_TABLES" by (simp add: ALL_TABLES_def)
  show ?thesis using h C1_closure_and_order [OF h] by blast
qed

text \<open>
  C2, as stated: \<^verbatim>\<open>resolve_dependencies\<close> terminates on every input, failing with a
  \<^verbatim>\<open>CycleError\<close> when a pass of the ordering loop places no table while \<^verbatim>\<open>remaining\<close> is
  not empty. The code has no such check: \<^verbatim>\<open>while remaining:\<close> only ends on an empty set
  (see \<open>order_loop_never\<close>), and a name outside \<^verbatim>\<open>ALL_TABLES\<close> is never placed.
\<close>

theorem C2_counterexample: "resolve_dependencies [''bogus''] True = None"
proof -
  have "closure_loop [''bogus''] = [''bogus'']"
    by (simp add: closure_loop.simps table_deps_def dict_get_def TABLE_DEPENDENCIES_def)
  moreover have "order_loop [''bogus''] [] [''bogus''] = None"
    by (rule order_loop_never) (simp_all add: ALL_TABLES_def)
  ultimately show ?thesis by (simp add: resolve_dependencies_def)
qed

text \<open>
  C2, amended: for every list of names of the eight tables (the only lists
  \<^verbatim>\<open>parse_table_spec\<close> lets through) and either value of \<^verbatim>\<open>include_deps\<close>,
  \<^verbatim>\<open>resolve_dependencies\<close> returns; with dependencies included the plan has no more
  entries than \<^verbatim>\<open>ALL_TABLES\<close>, one per pass of the ordering loop.
\<close>

theorem C2_returns_on_known_tables:
  assumes "set R \<subseteq> set ALL_TABLES"
  shows "\<exists>plan. resolve_dependencies R include_deps = Some plan
           \<and> (include_deps \<longrightarrow> length plan \<le> length ALL_TABLES)"
proof (cases include_deps)
  case True
  have "resolve_dependencies R True
      = Some (filter (\<lambda>t. t \<in> dep_closure (set R)) ALL_TABLES)"
    using assms by (rule resolve_known)
  then show ?thesis using True by simp
next
  case False
  then show ?thesis by (simp add: resolve_dependencies_def)
qed

theorem C2_returns_on_known_tables_witness:
  "set [''tasks'', ''notes''] \<subseteq> set ALL_TABLES
   \<and> (\<exists>plan. resolve_dependencies [''tasks'', ''notes''] True = Some plan
           \<and> (True \<longrightarrow> length plan \<le> length ALL_TABLES))"
proof -
  have h: "set [''tasks'', ''notes''] \<subseteq> set ALL_TABLES" by (simp add: ALL_TABLES_def)
  show ?thesis using h C2_returns_on_known_tables [OF h, of True] by blast
qed

text \<open>
  C10. For every requested list \<open>R\<close> of names of the eight tables,
  \<^verbatim>\<open>resolve_dependencies(R, include_deps=True)\<close> returns \<^verbatim>\<open>ALL_TABLES\<close> restricted to the
  transitive closure of \<open>R\<close>, in the order of \<^verbatim>\<open>ALL_TABLES\<close>. So the plan has no
  duplicates, and it is the same for any two requests with the same set of names,
  whatever their order and whatever order the closure loop enumerates its set in.
\<close>

theorem C10_enumeration_order:
  assumes "set R \<subseteq> set ALL_TABLES"
  shows "resolve_dependencies R True
           = Some (filter (\<lambda>t. t \<in> dep_closure (set R)) ALL_TABLES)
         \<and> distinct (filter (\<lambda>t. t \<in> dep_closure (set R)) ALL_TABLES)
         \<and> (\<forall>R'. set R' = set R \<longrightarrow>
               resolve_dependencies R' True = resolve_dependencies R True)"
proof -
  have 1: "resolve_dependencies R True
      = Some (filter (\<lambda>t. t \<in> dep_closure (set R)) ALL_TABLES)"
    using assms by (rule resolve_known)
  have 2: "distinct (filter (\<lambda>t. t \<in> dep_closure (set R)) ALL_TABLES)"
    using ALL_TABLES_distinct by simp
  have 3: "resolve_dependencies R' True = resolve_dependencies R True"
    if "set R' = set R" for R'
    using resolve_known [of R'] 1 that assms by simp
  show ?thesis using 1 2 3 by blast
qed

theorem C10_enumeration_order_witness:
  "set [''tasks'', ''notes''] \<subseteq> set ALL_TABLES
   \<and> resolve_dependencies [''tasks'', ''notes''] True
       = Some (filter (\<lambda>t. t \<in> dep_closure (set [''tasks'', ''notes''])) ALL_TABLES)
   \<and> resolve_dependencies [''tasks'', ''notes''] True
       = Some [''companies'', ''contacts'', ''deals'', ''notes'', ''tasks'']"
proof -
  have h: "set [''tasks'', ''notes''] \<subseteq> set ALL_TABLES" by (simp add: ALL_TABLES_def)
  show ?thesis using h C10_enumeration_order [OF h] resolve_example by blast
qed

section \<open>Table-spec parser\<close>

text \<open>
  The outcomes of a run that are not a normal return. \<^verbatim>\<open>parse_table_spec\<close> and \<^verbatim>\<open>main\<close>
  report a problem by printing a message and calling \<^verbatim>\<open>sys.exit(1)\<close>; the message names
  a table. \<open>UnknownTableError t\<close> is the exit after \<^verbatim>\<open>Error: Unknown table 't'\<close>, and
  \<open>MissingPrerequisiteError t\<close> the exit after \<^verbatim>\<open>Error: No t found. Generate t first.\<close>
  \<open>ValueError\<close> is the exception \<^verbatim>\<open>int()\<close> raises on a string that is not an integer
  literal (it carries the string), \<open>IndexError\<close> the one \<^verbatim>\<open>random.choice\<close> raises on an
  empty sequence; the code catches neither.
\<close>

datatype error =
    UnknownTableError string
  | ValueError string
  | MissingPrerequisiteError string
  | IndexError

subsection \<open>String methods\<close>

text \<open>
  Strings are lists of characters with codes below 256. \<^verbatim>\<open>str.isspace\<close> on these:
  tab to carriage return, the separators \<^verbatim>\<open>0x1c\<close> to \<^verbatim>\<open>0x1f\<close>, the space, the next-line
  control \<^verbatim>\<open>0x85\<close> and the no-break space \<^verbatim>\<open>0xa0\<close>. \<^verbatim>\<open>str.strip()\<close> removes them at
  both ends.
\<close>

definition py_isspace :: "char \<Rightarrow> bool" where
  "py_isspace c = (c \<in> set [CHR 0x09, CHR 0x0A, CHR 0x0B, CHR 0x0C, CHR 0x0D,
                              CHR 0x1C, CHR 0x1D, CHR 0x1E, CHR 0x1F, CHR '' '',
                              CHR 0x85, CHR 0xA0])"

definition lstrip :: "string \<Rightarrow> string" where
  "lstrip s = dropWhile py_isspace s"

definition rstrip :: "string \<Rightarrow> string" where
  "rstrip s = rev (dropWhile py_isspace (rev s))"

definition strip :: "string \<Rightarrow> string" where
  "strip s = rstrip (lstrip s)"

text \<open>\<^verbatim>\<open>str.lower()\<close>: the letters \<^verbatim>\<open>A\<close> to \<^verbatim>\<open>Z\<close> (codes 65 to 90) move up by 32.\<close>

definition lower_char :: "char \<Rightarrow> char" where
  "lower_char c = (let n = of_char c :: nat in if 65 \<le> n \<and> n \<le> 90 then char_of (n + 32) else c)"

definition py_lower :: "string \<Rightarrow> string" where
  "py_lower s = map lower_char s"

text \<open>
  \<^verbatim>\<open>s.split(sep)\<close> with a one-character separator: every occurrence splits, so the
  result is never empty and may hold empty pieces.
\<close>

fun split_on :: "char \<Rightarrow> string \<Rightarrow> string list" where
  "split_on sep [] = [[]]"
| "split_on sep (c # cs) =
     (if c = sep then [] # split_on sep cs
      else case split_on sep cs of
             piece # pieces \<Rightarrow> (c # piece) # pieces
           | [] \<Rightarrow> [[c]])"

text \<open>
  \<^verbatim>\<open>s.split(sep, 1)\<close> on a string that contains \<^verbatim>\<open>sep\<close>: the parts before and after
  the first occurrence.
\<close>

definition split_first :: "char \<Rightarrow> string \<Rightarrow> string \<times> string" where
  "split_first sep s = (takeWhile (\<lambda>c. c \<noteq> sep) s, tl (dropWhile (\<lambda>c. c \<noteq> sep) s))"

text \<open>
  \<^verbatim>\<open>int(s)\<close> on a string: blanks around are dropped, then an optional sign, then
  decimal digits in which single underscores may stand between two digits. Anything
  else is a \<^verbatim>\<open>ValueError\<close>, here \<open>None\<close>, and so is a literal of more digits than
  \<^verbatim>\<open>sys.int_max_str_digits\<close>, 4300 unless the interpreter is started otherwise.
  \<open>need_digit\<close> says that the next character has to be a digit: at the start and after
  an underscore.
\<close>

definition is_digit :: "char \<Rightarrow> bool" where
  "is_digit c = (let n = of_char c :: nat in 48 \<le> n \<and> n \<le> 57)"

fun digits_value :: "nat \<Rightarrow> bool \<Rightarrow> string \<Rightarrow> nat option" where
  "digits_value acc need_digit [] = (if need_digit then None else Some acc)"
| "digits_value acc need_digit (c # cs) =
     (if is_digit c then digits_value (10 * acc + (of_char c - 48)) False cs
      else if c = CHR ''_'' \<and> \<not> need_digit then digits_value acc True cs
      else None)"

definition int_max_str_digits :: int where
  "int_max_str_digits = 4300"

definition py_int :: "string \<Rightarrow> int option" where
  "py_int s =
     (let t = strip s;
          (neg, body) = (case t of
                           c # cs \<Rightarrow> if c = CHR ''-'' then (True, cs)
                                     else if c = CHR ''+'' then (False, cs) else (False, t)
                         | [] \<Rightarrow> (False, t))
      in if int_max_str_digits < int (length (filter is_digit body)) then None
         else map_option (\<lambda>n. if neg then - int n else int n) (digits_value 0 True body))"

subsection \<open>The parser\<close>

text \<open>
  \<^verbatim>\<open>default_count if default_count else DEFAULT_COUNTS.get(table, 100)\<close>: \<^verbatim>\<open>None\<close> and
  \<^verbatim>\<open>0\<close> are both false in Python.
\<close>

definition bare_count :: "int option \<Rightarrow> string \<Rightarrow> int" where
  "bare_count default_count table =
     (case default_count of
        Some n \<Rightarrow> if n \<noteq> 0 then n else dict_get DEFAULT_COUNTS table 100
      | None \<Rightarrow> dict_get DEFAULT_COUNTS table 100)"

text \<open>
  The head of the loop body of \<^verbatim>\<open>parse_table_spec\<close>, the \<^verbatim>\<open>if ':' in spec\<close> with its two
  branches: it yields \<^verbatim>\<open>table\<close> and \<^verbatim>\<open>count\<close>, or the \<^verbatim>\<open>ValueError\<close> of \<^verbatim>\<open>int\<close>.
\<close>

definition spec_entry :: "string \<Rightarrow> int option \<Rightarrow> error + string \<times> int" where
  "spec_entry spec default_count =
     (if CHR '':'' \<in> set spec then
        (case split_first CHR '':'' spec of
           (table, count_str) \<Rightarrow>
             (case py_int (strip count_str) of
                None \<Rightarrow> Inl (ValueError (strip count_str))
              | Some count \<Rightarrow> Inr (strip table, count)))
      else Inr (strip spec, bare_count default_count (strip spec)))"

text \<open>
  The loop \<^verbatim>\<open>for spec in tables_list\<close>: after the head, the check
  \<^verbatim>\<open>if table not in ALL_TABLES\<close> with its exit, then \<^verbatim>\<open>result[table] = count\<close>. The
  dictionary \<^verbatim>\<open>result\<close> keeps insertion order, and assigning to a key that is present
  keeps its place, which is what \<open>AList.update\<close> does.
\<close>

fun parse_specs :: "string list \<Rightarrow> int option \<Rightarrow> (string \<times> int) list
    \<Rightarrow> error + (string \<times> int) list" where
  "parse_specs [] default_count result = Inr result"
| "parse_specs (spec # specs) default_count result =
     (case spec_entry spec default_count of
        Inl e \<Rightarrow> Inl e
      | Inr (table, count) \<Rightarrow>
          if table \<notin> set ALL_TABLES then Inl (UnknownTableError table)
          else parse_specs specs default_count (AList.update table count result))"

text \<open>The \<^verbatim>\<open>if tables_arg.lower() == 'all'\<close> that opens \<^verbatim>\<open>parse_table_spec\<close>.\<close>

definition tables_list :: "string \<Rightarrow> string list" where
  "tables_list tables_arg =
     (if py_lower tables_arg = ''all'' then ALL_TABLES
      else map strip (split_on CHR '','' tables_arg))"

definition parse_table_spec :: "string \<Rightarrow> int option \<Rightarrow> error + (string \<times> int) list" where
  "parse_table_spec tables_arg default_count =
     parse_specs (tables_list tables_arg) default_count []"

subsection \<open>Strings with padding\<close>

text \<open>
  \<^verbatim>\<open>sep.join(ts)\<close>, and the padding of one token: blanks \<open>l\<close>, \<open>r\<close> around the token
  and blanks \<open>w1\<close>, \<open>w2\<close> on either side of its first colon, when it has one.
\<close>

fun join_on :: "char \<Rightarrow> string list \<Rightarrow> string" where
  "join_on sep [] = []"
| "join_on sep [t] = t"
| "join_on sep (t # u # ts) = t @ sep # join_on sep (u # ts)"

definition spec_table :: "string \<Rightarrow> string" where
  "spec_table spec =
     (if CHR '':'' \<in> set spec then strip (fst (split_first CHR '':'' spec)) else strip spec)"

definition spec_count_ok :: "string \<Rightarrow> bool" where
  "spec_count_ok spec =
     (CHR '':'' \<notin> set spec \<or> py_int (strip (snd (split_first CHR '':'' spec))) \<noteq> None)"

definition pad_colon :: "string \<Rightarrow> string \<Rightarrow> string \<Rightarrow> string" where
  "pad_colon w1 w2 t =
     (if CHR '':'' \<in> set t then
        (case split_first CHR '':'' t of (a, b) \<Rightarrow> a @ w1 @ CHR '':'' # w2 @ b)
      else t)"

fun pad_token :: "string \<times> string \<times> string \<times> string \<Rightarrow> string \<Rightarrow> string" where
  "pad_token (l, w1, w2, r) t = l @ pad_colon w1 w2 t @ r"

fun blank_pad :: "string \<times> string \<times> string \<times> string \<Rightarrow> bool" where
  "blank_pad (l, w1, w2, r) =
     (list_all py_isspace l \<and> list_all py_isspace w1 \<and> list_all py_isspace w2
      \<and> list_all py_isspace r)"

lemma split_on_nonempty: "split_on sep s \<noteq> []"
  by (induction s) (auto split: list.splits)

lemma split_on_no_sep: "sep \<notin> set t \<Longrightarrow> split_on sep t = [t]"
  by (induction t) auto

lemma split_on_append: "sep \<notin> set t \<Longrightarrow> split_on sep (t @ sep # rest) = t # split_on sep rest"
  by (induction t) auto

lemma split_on_join:
  "ts \<noteq> [] \<Longrightarrow> \<forall>t\<in>set ts. sep \<notin> set t \<Longrightarrow> split_on sep (join_on sep ts) = ts"
  by (induction sep ts rule: join_on.induct) (auto simp: split_on_no_sep split_on_append)

lemma split_on_pieces: "t \<in> set (split_on sep s) \<Longrightarrow> sep \<notin> set t"
  by (induction s arbitrary: t) (auto split: if_splits list.splits)

lemma join_on_split: "join_on sep (split_on sep s) = s"
proof (induction s)
  case Nil
  then show ?case by simp
next
  case (Cons c s)
  obtain p ps where p: "split_on sep s = p # ps"
    using split_on_nonempty [of sep s] by (cases "split_on sep s") auto
  show ?case
  proof (cases "c = sep")
    case True
    then show ?thesis using Cons p by simp
  next
    case False
    then show ?thesis using Cons p by (cases ps) auto
  qed
qed

lemma isspace_not_sep: "py_isspace c \<Longrightarrow> c \<noteq> CHR '','' \<and> c \<noteq> CHR '':''"
  by (auto simp: py_isspace_def)

lemma lstrip_blank: "list_all py_isspace l \<Longrightarrow> lstrip (l @ s) = lstrip s"
  by (simp add: lstrip_def list_all_iff dropWhile_append2)

lemma rstrip_blank: "list_all py_isspace r \<Longrightarrow> rstrip (s @ r) = rstrip s"
  using dropWhile_append2 [of "rev r" py_isspace "rev s"] by (simp add: rstrip_def list_all_iff)

lemma lstrip_solid: "\<not> py_isspace c \<Longrightarrow> lstrip (a @ c # b) = lstrip a @ c # b"
  by (simp add: lstrip_def dropWhile_append3)

lemma rstrip_solid: "\<not> py_isspace c \<Longrightarrow> rstrip (a @ c # b) = a @ c # rstrip b"
  by (simp add: rstrip_def dropWhile_append3)

lemma lstrip_all_blank: "list_all py_isspace s \<Longrightarrow> lstrip s = []"
  by (simp add: lstrip_def list_all_iff)

lemma rstrip_all_blank: "list_all py_isspace s \<Longrightarrow> rstrip s = []"
  by (simp add: rstrip_def list_all_iff)

lemma blank_or_solid:
  "list_all py_isspace s \<or> (\<exists>l c m. s = l @ c # m \<and> list_all py_isspace l \<and> \<not> py_isspace c)"
proof (cases "list_all py_isspace s")
  case True
  then show ?thesis by simp
next
  case False
  then obtain l c m where "s = l @ c # m" "\<forall>x\<in>set l. py_isspace x" "\<not> py_isspace c"
    using split_list_first_prop [of s "\<lambda>x. \<not> py_isspace x"] by (auto simp: list_all_iff)
  then show ?thesis by (auto simp: list_all_iff)
qed

lemma strip_commute: "lstrip (rstrip s) = rstrip (lstrip s)"
proof -
  consider "list_all py_isspace s"
    | l c m where "s = l @ c # m" "list_all py_isspace l" "\<not> py_isspace c"
    using blank_or_solid [of s] by blast
  then show ?thesis
  proof cases
    case 1
    then show ?thesis by (simp add: lstrip_all_blank rstrip_all_blank)
  next
    case 2
    have "lstrip (rstrip s) = c # rstrip m"
      using 2 by (simp add: rstrip_solid lstrip_solid lstrip_all_blank)
    moreover have "rstrip (lstrip s) = c # rstrip m"
      using 2 rstrip_solid [of c "[]" m] by (simp add: lstrip_solid lstrip_all_blank)
    ultimately show ?thesis by simp
  qed
qed

lemma lstrip_idem: "lstrip (lstrip s) = lstrip s"
  by (simp add: lstrip_def)

lemma rstrip_idem: "rstrip (rstrip s) = rstrip s"
  by (simp add: rstrip_def)

lemma strip_lstrip: "strip (lstrip s) = strip s"
  by (simp add: strip_def lstrip_idem)

lemma strip_rstrip: "strip (rstrip s) = strip s"
  by (simp add: strip_def strip_commute rstrip_idem)

lemma strip_idem: "strip (strip s) = strip s"
  by (simp add: strip_def strip_commute lstrip_idem rstrip_idem)

lemma strip_blank_left: "list_all py_isspace l \<Longrightarrow> strip (l @ s) = strip s"
  by (simp add: strip_def lstrip_blank)

lemma strip_blank_right: "list_all py_isspace r \<Longrightarrow> strip (s @ r) = strip s"
proof -
  assume r: "list_all py_isspace r"
  have "strip (s @ r) = lstrip (rstrip (s @ r))" by (simp add: strip_def strip_commute)
  also have "\<dots> = lstrip (rstrip s)" using r by (simp add: rstrip_blank)
  finally show ?thesis by (simp add: strip_def strip_commute)
qed

lemma strip_colon:
  "strip (a @ CHR '':'' # b) = lstrip a @ CHR '':'' # rstrip b"
proof -
  have n: "\<not> py_isspace CHR '':''" by (simp add: py_isspace_def)
  show ?thesis
    using rstrip_solid [OF n, of "lstrip a" b] by (simp add: strip_def lstrip_solid [OF n])
qed

lemma split_first_colon:
  "CHR '':'' \<notin> set a \<Longrightarrow> split_first CHR '':'' (a @ CHR '':'' # b) = (a, b)"
  by (induction a) (auto simp: split_first_def)

lemma lstrip_subset: "set (lstrip a) \<subseteq> set a"
  by (auto simp: lstrip_def dest: set_dropWhileD)

lemma strip_subset: "set (strip t) \<subseteq> set t"
  by (auto simp: strip_def lstrip_def rstrip_def dest!: set_dropWhileD)

lemma split_first_join:
  "CHR '':'' \<in> set t \<Longrightarrow>
   \<exists>a b. t = a @ CHR '':'' # b \<and> CHR '':'' \<notin> set a \<and> split_first CHR '':'' t = (a, b)"
proof -
  assume "CHR '':'' \<in> set t"
  then obtain a b where t: "t = a @ CHR '':'' # b" "CHR '':'' \<notin> set a"
    using split_list_first [of "CHR '':''" t] by blast
  then show ?thesis using split_first_colon [of a b] by blast
qed

lemma spec_entry_colon:
  assumes "CHR '':'' \<notin> set a"
  shows "spec_entry (strip (a @ CHR '':'' # b)) dc =
     (case py_int (strip b) of
        None \<Rightarrow> Inl (ValueError (strip b))
      | Some count \<Rightarrow> Inr (strip a, count))"
proof -
  have "CHR '':'' \<notin> set (lstrip a)" using assms lstrip_subset by blast
  then have "split_first CHR '':'' (lstrip a @ CHR '':'' # rstrip b) = (lstrip a, rstrip b)"
    by (rule split_first_colon)
  then show ?thesis
    by (simp add: spec_entry_def strip_colon strip_lstrip strip_rstrip split: option.splits)
qed

lemma spec_entry_bare:
  "CHR '':'' \<notin> set t \<Longrightarrow> spec_entry (strip t) dc = Inr (strip t, bare_count dc (strip t))"
proof -
  assume "CHR '':'' \<notin> set t"
  then have "CHR '':'' \<notin> set (strip t)" using strip_subset by blast
  then show ?thesis by (simp add: spec_entry_def strip_idem)
qed

lemma spec_entry_padded:
  assumes "blank_pad p"
  shows "spec_entry (strip (pad_token p t)) dc = spec_entry (strip t) dc"
proof -
  obtain l w1 w2 r where p: "p = (l, w1, w2, r)" by (cases p)
  have b: "list_all py_isspace l" "list_all py_isspace w1" "list_all py_isspace w2"
    "list_all py_isspace r" using assms p by simp_all
  show ?thesis
  proof (cases "CHR '':'' \<in> set t")
    case True
    then obtain a c where t: "t = a @ CHR '':'' # c" "CHR '':'' \<notin> set a"
      "split_first CHR '':'' t = (a, c)" using split_first_join by blast
    have pad: "pad_token p t = (l @ a @ w1) @ CHR '':'' # (w2 @ c @ r)"
      using True t(3) p by (simp add: pad_colon_def)
    have nc: "CHR '':'' \<notin> set (l @ a @ w1)"
      using t(2) b isspace_not_sep by (fastforce simp: list_all_iff)
    have sa: "strip (l @ a @ w1) = strip a"
      using strip_blank_left [OF b(1), of "a @ w1"] strip_blank_right [OF b(2), of a] by simp
    have sc: "strip (w2 @ c @ r) = strip c"
      using strip_blank_left [OF b(3), of "c @ r"] strip_blank_right [OF b(4), of c] by simp
    have "spec_entry (strip (pad_token p t)) dc =
        (case py_int (strip c) of
           None \<Rightarrow> Inl (ValueError (strip c))
         | Some count \<Rightarrow> Inr (strip a, count))"
      using spec_entry_colon [OF nc, of "w2 @ c @ r" dc] by (simp only: pad sa sc)
    moreover have "spec_entry (strip t) dc =
        (case py_int (strip c) of
           None \<Rightarrow> Inl (ValueError (strip c))
         | Some count \<Rightarrow> Inr (strip a, count))"
      using spec_entry_colon [OF t(2), of c dc] by (simp only: t(1))
    ultimately show ?thesis by simp
  next
    case False
    then have "pad_token p t = l @ t @ r" using p by (simp add: pad_colon_def)
    then have "strip (pad_token p t) = strip t"
      using strip_blank_left [OF b(1), of "t @ r"] strip_blank_right [OF b(4), of t] by simp
    then show ?thesis by simp
  qed
qed

lemma parse_specs_cong:
  "list_all2 (\<lambda>x y. spec_entry x dc = spec_entry y dc) xs ys \<Longrightarrow>
   parse_specs xs dc r = parse_specs ys dc r"
  by (induction xs ys arbitrary: r rule: list_all2_induct) (auto split: sum.splits)


lemma spec_entry_table:
  "spec_entry spec dc = Inr (t, c) \<Longrightarrow> t = spec_table spec"
  by (auto simp: spec_entry_def spec_table_def split: if_splits prod.splits option.splits)

lemma spec_entry_ok:
  "spec_count_ok spec \<Longrightarrow> \<exists>c. spec_entry spec dc = Inr (spec_table spec, c)"
  by (auto simp: spec_entry_def spec_table_def spec_count_ok_def split: prod.splits)

lemma spec_entry_bad:
  "\<not> spec_count_ok spec \<Longrightarrow> \<exists>v. spec_entry spec dc = Inl (ValueError v)"
  by (auto simp: spec_entry_def spec_count_ok_def split: prod.splits)

lemma spec_entry_cases:
  "(\<exists>v. spec_entry spec dc = Inl (ValueError v)) \<or> (\<exists>c. spec_entry spec dc = Inr (spec_table spec, c))"
  using spec_entry_ok spec_entry_bad by blast

lemma parse_specs_first_unknown:
  assumes "\<forall>p\<in>set pre. spec_table p \<in> set ALL_TABLES" "spec_table tok \<notin> set ALL_TABLES"
  shows "(\<exists>v. parse_specs (pre @ tok # post) dc r = Inl (ValueError v))
         \<or> parse_specs (pre @ tok # post) dc r = Inl (UnknownTableError (spec_table tok))"
  using assms(1)
proof (induction pre arbitrary: r)
  case Nil
  show ?case using spec_entry_cases [of tok dc] assms(2) by auto
next
  case (Cons p pre)
  consider v where "spec_entry p dc = Inl (ValueError v)"
    | c where "spec_entry p dc = Inr (spec_table p, c)"
    using spec_entry_cases [of p dc] by blast
  then show ?case
  proof cases
    case 1
    then show ?thesis by simp
  next
    case 2
    have "\<forall>p\<in>set pre. spec_table p \<in> set ALL_TABLES" using Cons.prems by simp
    from Cons.IH [OF this, of "AList.update (spec_table p) c r"] 2 Cons.prems
    show ?thesis by simp
  qed
qed

lemma parse_specs_first_unknown_ok:
  assumes "\<forall>p\<in>set pre. spec_table p \<in> set ALL_TABLES" "spec_table tok \<notin> set ALL_TABLES"
    "\<forall>p\<in>set pre. spec_count_ok p" "spec_count_ok tok"
  shows "parse_specs (pre @ tok # post) dc r = Inl (UnknownTableError (spec_table tok))"
  using assms(1,3)
proof (induction pre arbitrary: r)
  case Nil
  show ?case using spec_entry_ok [OF assms(4), of dc] assms(2) by auto
next
  case (Cons p pre)
  obtain c where e: "spec_entry p dc = Inr (spec_table p, c)"
    using spec_entry_ok [of p dc] Cons.prems(2) by auto
  have "\<forall>p\<in>set pre. spec_table p \<in> set ALL_TABLES" "\<forall>p\<in>set pre. spec_count_ok p"
    using Cons.prems by simp_all
  from Cons.IH [OF this, of "AList.update (spec_table p) c r"] e Cons.prems(1)
  show ?case by simp
qed

lemma parse_specs_lookup:
  assumes "parse_specs specs dc r = Inr m"
    "\<forall>spec\<in>set specs. \<forall>c. spec_entry spec dc = Inr (k, c) \<longrightarrow> c = v"
    "(\<exists>spec\<in>set specs. \<exists>c. spec_entry spec dc = Inr (k, c)) \<or> map_of r k = Some v"
  shows "map_of m k = Some v"
  using assms
proof (induction specs arbitrary: r)
  case Nil
  then show ?case by simp
next
  case (Cons spec specs)
  from Cons.prems(1) obtain t c where e: "spec_entry spec dc = Inr (t, c)"
    and known: "t \<in> set ALL_TABLES"
    and rest: "parse_specs specs dc (AList.update t c r) = Inr m"
    by (auto split: sum.splits if_splits)
  have 2: "\<forall>spec\<in>set specs. \<forall>c. spec_entry spec dc = Inr (k, c) \<longrightarrow> c = v"
    using Cons.prems(2) by simp
  have 3: "(\<exists>spec\<in>set specs. \<exists>c. spec_entry spec dc = Inr (k, c))
      \<or> map_of (AList.update t c r) k = Some v"
  proof (cases "t = k")
    case True
    then have "c = v" using Cons.prems(2) e by simp
    then show ?thesis using True by (simp add: update_conv')
  next
    case False
    then show ?thesis using Cons.prems(3) e by (auto simp: update_conv')
  qed
  from Cons.IH [OF rest 2 3] show ?case .
qed

lemma parse_specs_keys:
  "parse_specs specs dc r = Inr m \<Longrightarrow> fst ` set m = fst ` set r \<union> spec_table ` set specs"
proof (induction specs arbitrary: r)
  case Nil
  then show ?case by simp
next
  case (Cons spec specs)
  from Cons.prems obtain t c where e: "spec_entry spec dc = Inr (t, c)"
    and rest: "parse_specs specs dc (AList.update t c r) = Inr m"
    by (auto split: sum.splits if_splits)
  have "t = spec_table spec" using e by (rule spec_entry_table)
  with Cons.IH [OF rest] show ?case by (auto simp: dom_update)
qed

lemma lower_char_eq:
  "lower_char c = d \<Longrightarrow> \<not> (65 \<le> (of_char d :: nat) \<and> (of_char d :: nat) \<le> 90)
   \<Longrightarrow> c = d \<or> (of_char c :: nat) + 32 = of_char d"
  by (auto simp: lower_char_def Let_def split: if_splits)

lemma py_lower_all_chars:
  assumes "py_lower s = ''all''"
  shows "set s \<subseteq> {CHR ''a'', CHR ''A'', CHR ''l'', CHR ''L''}"
proof
  fix c assume "c \<in> set s"
  then have "lower_char c \<in> set (py_lower s)" by (simp add: py_lower_def)
  then have "lower_char c = CHR ''a'' \<or> lower_char c = CHR ''l''" using assms by simp
  then have "c = CHR ''a'' \<or> c = CHR ''l'' \<or> (of_char c :: nat) = 65 \<or> (of_char c :: nat) = 76"
    using lower_char_eq [of c "CHR ''a''"] lower_char_eq [of c "CHR ''l''"] by auto
  moreover have "c = CHR ''A''" if "(of_char c :: nat) = 65"
    using that by (intro of_char_eqI [where ?'a = nat]) simp
  moreover have "c = CHR ''L''" if "(of_char c :: nat) = 76"
    using that by (intro of_char_eqI [where ?'a = nat]) simp
  ultimately show "c \<in> {CHR ''a'', CHR ''A'', CHR ''l'', CHR ''L''}" by blast
qed


lemma parse_specs_bad_count:
  assumes "\<forall>p\<in>set pre. spec_table p \<in> set ALL_TABLES"
    "\<not> (\<forall>p\<in>set (pre @ [tok]). spec_count_ok p)"
  shows "\<exists>v. parse_specs (pre @ tok # post) dc r = Inl (ValueError v)"
  using assms
proof (induction pre arbitrary: r)
  case Nil
  then show ?case using spec_entry_bad [of tok dc] by auto
next
  case (Cons p pre)
  show ?case
  proof (cases "spec_count_ok p")
    case False
    then show ?thesis using spec_entry_bad [of p dc] by auto
  next
    case True
    then obtain c where e: "spec_entry p dc = Inr (spec_table p, c)"
      using spec_entry_ok [of p dc] by auto
    have "\<forall>p\<in>set pre. spec_table p \<in> set ALL_TABLES"
      "\<not> (\<forall>p\<in>set (pre @ [tok]). spec_count_ok p)"
      using Cons.prems True by simp_all
    from Cons.IH [OF this, of "AList.update (spec_table p) c r"] e Cons.prems(1)
    show ?thesis by simp
  qed
qed

lemma parse_specs_append:
  "parse_specs (xs @ ys) dc r =
     (case parse_specs xs dc r of Inl e \<Rightarrow> Inl e | Inr r' \<Rightarrow> parse_specs ys dc r')"
  by (induction xs arbitrary: r) (auto split: sum.splits)

lemma join_on_has_sep: "2 \<le> length ts \<Longrightarrow> sep \<in> set (join_on sep ts)"
  by (induction sep ts rule: join_on.induct) auto

lemma pad_token_set:
  "set (pad_token (l, w1, w2, r) t) =
     set l \<union> set r \<union> set t \<union> (if CHR '':'' \<in> set t then set w1 \<union> set w2 else {})"
proof (cases "CHR '':'' \<in> set t")
  case True
  then obtain a c where "t = a @ CHR '':'' # c" "split_first CHR '':'' t = (a, c)"
    using split_first_join by blast
  then show ?thesis using True by (auto simp: pad_colon_def)
next
  case False
  then show ?thesis by (auto simp: pad_colon_def)
qed

lemma blank_not_letter:
  "py_isspace c \<Longrightarrow> c \<notin> {CHR ''a'', CHR ''A'', CHR ''l'', CHR ''L''}"
  by (auto simp: py_isspace_def)

lemma padded_not_all:
  assumes len: "length ps = length (split_on CHR '','' s)"
    and blank: "list_all blank_pad ps"
    and s: "py_lower s \<noteq> ''all''"
  shows "py_lower (join_on CHR '','' (map2 pad_token ps (split_on CHR '','' s))) \<noteq> ''all''"
proof
  let ?toks = "split_on CHR '','' s"
  let ?s' = "join_on CHR '','' (map2 pad_token ps ?toks)"
  let ?letters = "{CHR ''a'', CHR ''A'', CHR ''l'', CHR ''L''}"
  assume "py_lower ?s' = ''all''"
  then have chars: "set ?s' \<subseteq> ?letters" by (rule py_lower_all_chars)
  then have "CHR '','' \<notin> set ?s'" by auto
  then have "\<not> 2 \<le> length (map2 pad_token ps ?toks)"
    using join_on_has_sep by blast
  moreover have "?toks \<noteq> []" by (rule split_on_nonempty)
  ultimately obtain p t where pt: "ps = [p]" "?toks = [t]"
    using len by (cases ps; cases ?toks; cases "tl ps"; cases "tl ?toks") auto
  obtain l w1 w2 r where p: "p = (l, w1, w2, r)" by (cases p)
  have b: "list_all py_isspace l" "list_all py_isspace r" using blank pt p by simp_all
  have st: "s = t" using join_on_split [of "CHR '',''" s] pt by simp
  have sub: "set (pad_token p t) \<subseteq> ?letters" using chars pt by simp
  then have "set l \<subseteq> ?letters" "set r \<subseteq> ?letters" "set t \<subseteq> ?letters"
    unfolding p pad_token_set by auto
  then have "CHR '':'' \<notin> set t" by auto
  have empty: "w = []" if "list_all py_isspace w" "set w \<subseteq> ?letters" for w
  proof (cases w)
    case Nil
    then show ?thesis .
  next
    case (Cons x xs)
    then have "py_isspace x" "x \<in> ?letters" using that by auto
    then show ?thesis using blank_not_letter by blast
  qed
  have "l = []" "r = []"
    using empty b \<open>set l \<subseteq> ?letters\<close> \<open>set r \<subseteq> ?letters\<close> by blast+
  with \<open>CHR '':'' \<notin> set t\<close> have "l = []" "r = []" "CHR '':'' \<notin> set t" by simp_all
  then have "pad_token p t = t" using p by (simp add: pad_colon_def)
  then have "?s' = s" using pt st by simp
  with \<open>py_lower ?s' = ''all''\<close> s show False by simp
qed

lemma padded_parse:
  assumes len: "length ps = length (split_on CHR '','' s)"
    and blank: "list_all blank_pad ps"
    and s: "py_lower s \<noteq> ''all''"
  shows "parse_table_spec (join_on CHR '','' (map2 pad_token ps (split_on CHR '','' s))) dc
         = parse_table_spec s dc"
proof -
  let ?toks = "split_on CHR '','' s"
  let ?toks' = "map2 pad_token ps ?toks"
  let ?s' = "join_on CHR '','' ?toks'"
  have ne: "?toks' \<noteq> []" using len split_on_nonempty [of "CHR '',''" s] by (cases ps) auto
  have nocomma: "CHR '','' \<notin> set t'" if "t' \<in> set ?toks'" for t'
  proof -
    from that obtain i where i: "i < length ps" "i < length ?toks"
      "t' = pad_token (ps ! i) (?toks ! i)" by (auto simp: set_zip)
    define p t where "p = ps ! i" and "t = ?toks ! i"
    have pt: "p \<in> set ps" "t \<in> set ?toks" "t' = pad_token p t"
      using i by (simp_all add: p_def t_def)
    obtain l w1 w2 r where p: "p = (l, w1, w2, r)" by (cases p)
    have "blank_pad p" using blank pt(1) by (simp add: list_all_iff)
    then have "\<forall>c \<in> set l \<union> set w1 \<union> set w2 \<union> set r. c \<noteq> CHR '',''"
      using p isspace_not_sep by (fastforce simp: list_all_iff)
    moreover have "CHR '','' \<notin> set t" using pt(2) by (rule split_on_pieces)
    ultimately show ?thesis unfolding pt(3) p pad_token_set by (auto split: if_splits)
  qed
  have split': "split_on CHR '','' ?s' = ?toks'"
    using ne nocomma by (intro split_on_join) auto
  have tl': "tables_list ?s' = map strip ?toks'"
    using padded_not_all [OF len blank s] split' by (simp add: tables_list_def)
  have tl: "tables_list s = map strip ?toks" using s by (simp add: tables_list_def)
  have "list_all2 (\<lambda>x y. spec_entry x dc = spec_entry y dc) (map strip ?toks') (map strip ?toks)"
    using len blank by (auto simp: list_all2_conv_all_nth list_all_iff spec_entry_padded)
  then show ?thesis
    unfolding parse_table_spec_def tl tl' by (rule parse_specs_cong)
qed

lemma parse_all:
  "py_lower s = ''all'' \<Longrightarrow>
   parse_table_spec s dc = Inr (map (\<lambda>t. (t, bare_count dc t)) ALL_TABLES)"
  by (simp add: parse_table_spec_def tables_list_def ALL_TABLES_def spec_entry_def
      strip_def lstrip_def rstrip_def py_isspace_def)

lemma bare_token_count:
  assumes p: "parse_table_spec s dc = Inr m"
    and t: "tables_list s = pre @ tok # post"
    and bare: "CHR '':'' \<notin> set tok"
    and later: "\<forall>other\<in>set post. CHR '':'' \<in> set other \<longrightarrow> spec_table other \<noteq> strip tok"
  shows "map_of m (strip tok) = Some (bare_count dc (strip tok))"
proof -
  from p t obtain r' where rest: "parse_specs (tok # post) dc r' = Inr m"
    by (auto simp: parse_table_spec_def parse_specs_append split: sum.splits)
  have e: "spec_entry tok dc = Inr (strip tok, bare_count dc (strip tok))"
    using bare by (simp add: spec_entry_def)
  have same: "c = bare_count dc (strip tok)"
    if "spec \<in> set (tok # post)" "spec_entry spec dc = Inr (strip tok, c)" for spec c
  proof (cases "CHR '':'' \<in> set spec")
    case True
    then have "spec \<in> set post" using that(1) bare by auto
    moreover have "spec_table spec = strip tok" using that(2) spec_entry_table by metis
    ultimately show ?thesis using later True by blast
  next
    case False
    then show ?thesis using that(2) by (auto simp: spec_entry_def)
  qed
  show ?thesis
    by (rule parse_specs_lookup [OF rest]) (use same e in auto)
qed

lemma py_lower_all_unknown: "py_lower t = ''all'' \<Longrightarrow> t \<notin> set ALL_TABLES"
proof
  assume a: "py_lower t = ''all''" and t: "t \<in> set ALL_TABLES"
  have "length (py_lower t) = length t" by (simp add: py_lower_def)
  then have "length t = 3" using a by simp
  then show False using t by (auto simp: ALL_TABLES_def)
qed

lemma parse_specs_unknown_fails:
  assumes "tok \<in> set specs" "spec_table tok \<notin> set ALL_TABLES"
  shows "\<exists>e. parse_specs specs dc r = Inl e"
proof -
  from assms obtain pre t post where sp: "specs = pre @ t # post"
    and t: "spec_table t \<notin> set ALL_TABLES"
    and pre: "\<forall>p\<in>set pre. \<not> spec_table p \<notin> set ALL_TABLES"
    using split_list_first_prop [of specs "\<lambda>p. spec_table p \<notin> set ALL_TABLES"] by blast
  from pre have "\<forall>p\<in>set pre. spec_table p \<in> set ALL_TABLES" by simp
  from parse_specs_first_unknown [OF this t, of post dc r] show ?thesis
    unfolding sp by blast
qed


subsection \<open>Claims on the parser\<close>

text \<open>
  The no-break space and the next-line control are blanks to \<^verbatim>\<open>strip\<close> and to \<^verbatim>\<open>int\<close>
  like the space.
\<close>

lemma parse_no_break_space:
  "parse_table_spec (''companies'' @ [CHR 0xA0]) None = Inr [(''companies'', 100)]
   \<and> parse_table_spec (''companies:'' @ [CHR 0xA0] @ ''5'' @ [CHR 0x85]) None
       = Inr [(''companies'', 5)]"
  by code_simp

text \<open>
  C6. \<^verbatim>\<open>parse_table_spec("all", None)\<close> yields the eight tables of \<^verbatim>\<open>ALL_TABLES\<close>, each
  with its count in \<^verbatim>\<open>DEFAULT_COUNTS\<close>; \<^verbatim>\<open>parse_table_spec("companies:50,contacts", 100)\<close>
  yields \<^verbatim>\<open>{companies: 50, contacts: 100}\<close>; and in every specification that parses, a
  bare token that no later \<^verbatim>\<open>name:count\<close> token of the same table overrides gets
  \<^verbatim>\<open>default_count\<close> when that is given and not zero, and the table's built-in default
  otherwise.
\<close>

theorem C6_defaults_and_bare_tokens:
  "parse_table_spec ''all'' None
     = Inr (map (\<lambda>t. (t, dict_get DEFAULT_COUNTS t 100)) ALL_TABLES)
   \<and> parse_table_spec ''companies:50,contacts'' (Some 100)
     = Inr [(''companies'', 50), (''contacts'', 100)]
   \<and> (\<forall>s dc m pre tok post.
        parse_table_spec s dc = Inr m \<and> tables_list s = pre @ tok # post
        \<and> CHR '':'' \<notin> set tok
        \<and> (\<forall>other\<in>set post. CHR '':'' \<in> set other \<longrightarrow> spec_table other \<noteq> strip tok)
        \<longrightarrow> map_of m (strip tok)
            = Some (case dc of
                      None \<Rightarrow> dict_get DEFAULT_COUNTS (strip tok) 100
                    | Some n \<Rightarrow> if n \<noteq> 0 then n
                               else dict_get DEFAULT_COUNTS (strip tok) 100))"
proof (intro conjI allI impI)
  show "parse_table_spec ''all'' None
     = Inr (map (\<lambda>t. (t, dict_get DEFAULT_COUNTS t 100)) ALL_TABLES)"
    by code_simp
  show "parse_table_spec ''companies:50,contacts'' (Some 100)
     = Inr [(''companies'', 50), (''contacts'', 100)]"
    by code_simp
next
  fix s dc m pre tok post
  assume h: "parse_table_spec s dc = Inr m \<and> tables_list s = pre @ tok # post
        \<and> CHR '':'' \<notin> set tok
        \<and> (\<forall>other\<in>set post. CHR '':'' \<in> set other \<longrightarrow> spec_table other \<noteq> strip tok)"
  then have "map_of m (strip tok) = Some (bare_count dc (strip tok))"
    using bare_token_count [of s dc m pre tok post] by blast
  then show "map_of m (strip tok)
            = Some (case dc of
                      None \<Rightarrow> dict_get DEFAULT_COUNTS (strip tok) 100
                    | Some n \<Rightarrow> if n \<noteq> 0 then n
                               else dict_get DEFAULT_COUNTS (strip tok) 100)"
    by (simp add: bare_count_def split: option.splits)
qed

theorem C6_defaults_and_bare_tokens_witness:
  "parse_table_spec ''companies,contacts:7,deals'' (Some 0)
     = Inr [(''companies'', 100), (''contacts'', 7), (''deals'', 200)]
   \<and> tables_list ''companies,contacts:7,deals'' = [] @ ''companies'' # [''contacts:7'', ''deals'']
   \<and> CHR '':'' \<notin> set ''companies''
   \<and> spec_table ''contacts:7'' \<noteq> strip ''companies''
   \<and> map_of [(''companies'', 100), (''contacts'', 7), (''deals'', 200)] (strip ''companies'')
       = Some (case Some (0::int) of
                 None \<Rightarrow> dict_get DEFAULT_COUNTS (strip ''companies'') 100
               | Some n \<Rightarrow> if n \<noteq> 0 then n
                          else dict_get DEFAULT_COUNTS (strip ''companies'') 100)"
proof -
  have 1: "parse_table_spec ''companies,contacts:7,deals'' (Some 0)
     = Inr [(''companies'', 100), (''contacts'', 7), (''deals'', 200)]"
    by code_simp
  have 2: "tables_list ''companies,contacts:7,deals''
     = [] @ ''companies'' # [''contacts:7'', ''deals'']"
    by code_simp
  have 3: "CHR '':'' \<notin> set ''companies''" by simp
  have 4: "\<forall>other\<in>set [''contacts:7'', ''deals''].
         CHR '':'' \<in> set other \<longrightarrow> spec_table other \<noteq> strip ''companies''"
    by code_simp
  have 5: "spec_table ''contacts:7'' \<noteq> strip ''companies''" by code_simp
  from C6_defaults_and_bare_tokens 1 2 3 4 5 show ?thesis by blast
qed

text \<open>
  C7, as stated: every specification with a token whose table name is unknown fails
  with \<^verbatim>\<open>UnknownTableError\<close>. The loop body converts the count of a \<^verbatim>\<open>name:count\<close> token
  with \<^verbatim>\<open>int()\<close> before it looks the name up, so a malformed count raises
  \<^verbatim>\<open>ValueError\<close> first.
\<close>

theorem C7_counterexample:
  "spec_table ''bogus:x'' \<notin> set ALL_TABLES
   \<and> parse_table_spec ''bogus:x'' None = Inl (ValueError ''x'')"
  by code_simp

text \<open>
  C7, amended: when the first token with an unknown table name is \<open>tok\<close>,
  \<^verbatim>\<open>parse_table_spec\<close> returns no mapping. It fails with \<^verbatim>\<open>UnknownTableError\<close> naming the
  table name of \<open>tok\<close> when the count of every \<^verbatim>\<open>name:count\<close> token up to and including
  \<open>tok\<close> is an integer literal, and with the \<^verbatim>\<open>ValueError\<close> of \<^verbatim>\<open>int()\<close> otherwise.
\<close>

theorem C7_unknown_table_fails:
  assumes "tables_list s = pre @ tok # post"
    and "\<forall>p\<in>set pre. spec_table p \<in> set ALL_TABLES"
    and "spec_table tok \<notin> set ALL_TABLES"
  shows "if \<forall>p\<in>set (pre @ [tok]). spec_count_ok p
         then parse_table_spec s dc = Inl (UnknownTableError (spec_table tok))
         else \<exists>v. parse_table_spec s dc = Inl (ValueError v)"
proof (cases "\<forall>p\<in>set (pre @ [tok]). spec_count_ok p")
  case True
  then have "\<forall>p\<in>set pre. spec_count_ok p" "spec_count_ok tok" by simp_all
  from parse_specs_first_unknown_ok [OF assms(2,3) this, of post dc "[]"]
  have r: "parse_table_spec s dc = Inl (UnknownTableError (spec_table tok))"
    by (simp add: parse_table_spec_def assms(1))
  show ?thesis by (subst if_P [OF True]) (fact r)
next
  case False
  from parse_specs_bad_count [OF assms(2) False, of post dc "[]"]
  have r: "\<exists>v. parse_table_spec s dc = Inl (ValueError v)"
    by (simp add: parse_table_spec_def assms(1))
  show ?thesis by (subst if_not_P [OF False]) (fact r)
qed

theorem C7_unknown_table_fails_witness:
  "tables_list ''companies:5, bogus ,nope'' = [''companies:5''] @ ''bogus'' # [''nope'']
   \<and> spec_table ''companies:5'' \<in> set ALL_TABLES
   \<and> spec_table ''bogus'' \<notin> set ALL_TABLES
   \<and> spec_count_ok ''companies:5'' \<and> spec_count_ok ''bogus''
   \<and> parse_table_spec ''companies:5, bogus ,nope'' None
       = Inl (UnknownTableError (spec_table ''bogus''))"
proof -
  have 1: "tables_list ''companies:5, bogus ,nope'' = [''companies:5''] @ ''bogus'' # [''nope'']"
    by code_simp
  have 2: "\<forall>p\<in>set [''companies:5'']. spec_table p \<in> set ALL_TABLES" by code_simp
  have 3: "spec_table ''bogus'' \<notin> set ALL_TABLES" by code_simp
  have 4: "\<forall>p\<in>set ([''companies:5''] @ [''bogus'']). spec_count_ok p" by code_simp
  have 5: "spec_table ''companies:5'' \<in> set ALL_TABLES" by code_simp
  have 6: "spec_count_ok ''companies:5''" "spec_count_ok ''bogus''" by code_simp+
  from C7_unknown_table_fails [OF 1 2 3, of None] 4
  have "parse_table_spec ''companies:5, bogus ,nope'' None
       = Inl (UnknownTableError (spec_table ''bogus''))" by (simp only: if_True)
  then show ?thesis using 1 3 5 6 by blast
qed

text \<open>
  C8, as stated: the token \<^verbatim>\<open>all\<close> expands to every table. \<^verbatim>\<open>all\<close> is recognised only as
  the whole argument; as one token of a comma-separated list it goes through the loop
  like any name and is not a table.
\<close>

theorem C8_counterexample:
  "tables_list ''all,companies'' = [''all'', ''companies'']
   \<and> parse_table_spec ''all,companies'' None = Inl (UnknownTableError ''all'')"
  by code_simp

text \<open>
  C8, amended: an argument that is \<^verbatim>\<open>all\<close> in any mix of upper and lower case expands to
  every table of \<^verbatim>\<open>ALL_TABLES\<close>. For any other argument, putting blanks around any of
  its comma-separated tokens and on either side of a token's first colon gives the same
  result, mapping or error. In a list of two or more tokens, a token whose table name is
  \<^verbatim>\<open>all\<close> in any case is not expanded: the call fails.
\<close>

theorem C8_padding_ignored:
  "(py_lower s = ''all'' \<longrightarrow>
      parse_table_spec s dc = Inr (map (\<lambda>t. (t, bare_count dc t)) ALL_TABLES))
   \<and> (py_lower s \<noteq> ''all'' \<and> length ps = length (split_on CHR '','' s)
        \<and> list_all blank_pad ps \<longrightarrow>
      parse_table_spec (join_on CHR '','' (map2 pad_token ps (split_on CHR '','' s))) dc
        = parse_table_spec s dc)
   \<and> (2 \<le> length (tables_list s) \<and> tok \<in> set (tables_list s)
        \<and> py_lower (spec_table tok) = ''all'' \<longrightarrow>
      (\<exists>e. parse_table_spec s dc = Inl e))"
proof (intro conjI impI)
  assume "py_lower s = ''all''"
  then show "parse_table_spec s dc = Inr (map (\<lambda>t. (t, bare_count dc t)) ALL_TABLES)"
    by (rule parse_all)
next
  assume "py_lower s \<noteq> ''all'' \<and> length ps = length (split_on CHR '','' s)
        \<and> list_all blank_pad ps"
  then show "parse_table_spec (join_on CHR '','' (map2 pad_token ps (split_on CHR '','' s))) dc
        = parse_table_spec s dc"
    using padded_parse [of ps s dc] by blast
next
  assume h: "2 \<le> length (tables_list s) \<and> tok \<in> set (tables_list s)
        \<and> py_lower (spec_table tok) = ''all''"
  then have "spec_table tok \<notin> set ALL_TABLES" using py_lower_all_unknown by blast
  with h show "\<exists>e. parse_table_spec s dc = Inl e"
    unfolding parse_table_spec_def using parse_specs_unknown_fails by blast
qed

theorem C8_padding_ignored_witness:
  "py_lower ''aLL'' = ''all''
   \<and> parse_table_spec ''aLL'' (Some 3) = Inr (map (\<lambda>t. (t, bare_count (Some 3) t)) ALL_TABLES)
   \<and> py_lower ''companies:5,contacts'' \<noteq> ''all''
   \<and> length [([CHR 0xA0], '' '', ''  '', []), ([], [], [], '' '')]
       = length (split_on CHR '','' ''companies:5,contacts'')
   \<and> list_all blank_pad [([CHR 0xA0], '' '', ''  '', []), ([], [], [], '' '')]
   \<and> join_on CHR '','' (map2 pad_token [([CHR 0xA0], '' '', ''  '', []), ([], [], [], '' '')]
         (split_on CHR '','' ''companies:5,contacts''))
       = CHR 0xA0 # ''companies :  5,contacts ''
   \<and> parse_table_spec (CHR 0xA0 # ''companies :  5,contacts '') None
       = parse_table_spec ''companies:5,contacts'' None
   \<and> 2 \<le> length (tables_list ''companies, ALL'')
   \<and> ''ALL'' \<in> set (tables_list ''companies, ALL'')
   \<and> py_lower (spec_table ''ALL'') = ''all''
   \<and> (\<exists>e. parse_table_spec ''companies, ALL'' None = Inl e)"
proof -
  let ?ps = "[([CHR 0xA0], '' '', ''  '', []), ([], [], [], '' '')]"
  have 1: "py_lower ''aLL'' = ''all''" by code_simp
  have 2: "py_lower ''companies:5,contacts'' \<noteq> ''all''" by code_simp
  have 3: "length ?ps = length (split_on CHR '','' ''companies:5,contacts'')" by code_simp
  have 4: "list_all blank_pad ?ps" by code_simp
  have 5: "join_on CHR '','' (map2 pad_token ?ps
         (split_on CHR '','' ''companies:5,contacts'')) = CHR 0xA0 # ''companies :  5,contacts ''"
    by code_simp
  have 6: "2 \<le> length (tables_list ''companies, ALL'')" by code_simp
  have 7: "''ALL'' \<in> set (tables_list ''companies, ALL'')" by code_simp
  have 8: "py_lower (spec_table ''ALL'') = ''all''" by code_simp
  from C8_padding_ignored [of "''aLL''" "Some 3"] 1
  have a: "parse_table_spec ''aLL'' (Some 3)
      = Inr (map (\<lambda>t. (t, bare_count (Some 3) t)) ALL_TABLES)" by blast
  from C8_padding_ignored [of "''companies:5,contacts''" None ?ps] 2 3 4
  have "parse_table_spec (join_on CHR '','' (map2 pad_token ?ps
         (split_on CHR '','' ''companies:5,contacts''))) None
      = parse_table_spec ''companies:5,contacts'' None" by blast
  then have b: "parse_table_spec (CHR 0xA0 # ''companies :  5,contacts '') None
      = parse_table_spec ''companies:5,contacts'' None" by (simp only: 5)
  from C8_padding_ignored [of "''companies, ALL''" None _ "''ALL''"] 6 7 8
  have c: "\<exists>e. parse_table_spec ''companies, ALL'' None = Inl e" by blast
  show ?thesis by (intro conjI 1 a 2 3 4 5 b 6 7 8 c)
qed

section \<open>Random values and the store\<close>

text \<open>
  The generators draw from two sources that the module seeds at start: Python's
  \<^verbatim>\<open>random\<close> and \<^verbatim>\<open>Faker\<close>. Each is the infinite sequence of the values it will deliver,
  \<open>rand_out\<close> as natural numbers and \<open>fake_out\<close> as strings, with the number of values
  drawn so far, \<open>rand_pos\<close> and \<open>fake_pos\<close>; a draw takes the next value. The theorems
  of this theory hold for every pair of sequences. Draws whose value only fills
  a column that no decision reads (phone numbers, descriptions, dates) are dropped by
  \<open>discard_rand\<close> and \<open>discard_fake\<close>.
\<close>

record company_row =
  company_pk :: nat
  company_name :: string

record contact_row =
  contact_pk :: nat
  contact_company :: nat
  contact_first_name :: string
  contact_last_name :: string
  contact_email :: string
  contact_is_primary :: bool

record product_row =
  product_pk :: nat
  product_name :: string
  product_price :: int
  product_sku :: string
  product_category :: string

record deal_row =
  deal_pk :: nat
  deal_company :: nat
  deal_contact :: "nat option"
  deal_stage :: string
  deal_probability :: int
  deal_value :: int
  deal_actual_close :: "string option"

record deal_product_row =
  dp_deal :: nat
  dp_product :: nat
  dp_quantity :: int

record activity_row =
  activity_contact :: nat
  activity_type :: string
  activity_duration :: "int option"

record note_row =
  note_contact :: nat

record task_row =
  task_deal :: nat
  task_status :: string
  task_completed_at :: "string option"

text \<open>
  Modelled from the spec: the store behind \<^verbatim>\<open>conn\<close> is an external collaborator, used
  through \<^verbatim>\<open>insert_records\<close>, \<^verbatim>\<open>fetch_all_ids\<close>, \<^verbatim>\<open>fetch_pairs\<close> and \<^verbatim>\<open>commit\<close>. A
  \<open>database\<close> is the rows of the eight tables as the connection sees them, and for each
  table the last value of its id sequence. Prices are in cents.
\<close>

record database =
  companies_tbl :: "company_row list"
  contacts_tbl :: "contact_row list"
  products_tbl :: "product_row list"
  deals_tbl :: "deal_row list"
  deal_products_tbl :: "deal_product_row list"
  activities_tbl :: "activity_row list"
  notes_tbl :: "note_row list"
  tasks_tbl :: "task_row list"
  last_id :: "string \<Rightarrow> nat"

record world =
  rand_out :: "nat \<Rightarrow> nat"
  rand_pos :: nat
  fake_out :: "nat \<Rightarrow> string"
  fake_pos :: nat
  conn :: database

definition rand_next :: "world \<Rightarrow> nat \<times> world" where
  "rand_next w = (rand_out w (rand_pos w), w\<lparr>rand_pos := Suc (rand_pos w)\<rparr>)"

definition fake_next :: "world \<Rightarrow> string \<times> world" where
  "fake_next w = (fake_out w (fake_pos w), w\<lparr>fake_pos := Suc (fake_pos w)\<rparr>)"

definition discard_rand :: "nat \<Rightarrow> world \<Rightarrow> world" where
  "discard_rand n w = w\<lparr>rand_pos := rand_pos w + n\<rparr>"

definition discard_fake :: "nat \<Rightarrow> world \<Rightarrow> world" where
  "discard_fake n w = w\<lparr>fake_pos := fake_pos w + n\<rparr>"

text \<open>
  \<^verbatim>\<open>random.choice(seq)\<close> returns the element at an index below \<^verbatim>\<open>len(seq)\<close> and raises
  \<^verbatim>\<open>IndexError\<close> on an empty sequence. \<open>pick\<close> is the same on the module's constant
  lists, none of which is empty. \<^verbatim>\<open>random.randint(a, b)\<close> returns an integer from \<open>a\<close> to
  \<open>b\<close>, both included.
\<close>

definition random_choice :: "'a list \<Rightarrow> world \<Rightarrow> error + 'a \<times> world" where
  "random_choice xs w =
     (if xs = [] then Inl IndexError
      else case rand_next w of (r, w') \<Rightarrow> Inr (xs ! (r mod length xs), w'))"

definition pick :: "'a list \<Rightarrow> world \<Rightarrow> 'a \<times> world" where
  "pick xs w = (case rand_next w of (r, w') \<Rightarrow> (xs ! (r mod length xs), w'))"

definition randint :: "int \<Rightarrow> int \<Rightarrow> world \<Rightarrow> int \<times> world" where
  "randint a b w = (case rand_next w of (r, w') \<Rightarrow> (a + int r mod (b - a + 1), w'))"

text \<open>
  Modelled from the spec: \<^verbatim>\<open>INSERT ... RETURNING id\<close> gives the row the next value of
  the table's sequence and returns it; \<^verbatim>\<open>SELECT id FROM table\<close> lists the ids of the
  rows the connection sees.
\<close>

definition next_id :: "string \<Rightarrow> database \<Rightarrow> nat \<times> database" where
  "next_id table d = (Suc (last_id d table), d\<lparr>last_id := (last_id d)(table := Suc (last_id d table))\<rparr>)"

definition fetch_existing_ids :: "database \<Rightarrow> string \<Rightarrow> nat list" where
  "fetch_existing_ids d table =
     (if table = ''companies'' then map company_pk (companies_tbl d)
      else if table = ''contacts'' then map contact_pk (contacts_tbl d)
      else if table = ''products'' then map product_pk (products_tbl d)
      else if table = ''deals'' then map deal_pk (deals_tbl d)
      else [])"

definition fetch_contact_company_map :: "database \<Rightarrow> (nat \<times> nat) list" where
  "fetch_contact_company_map d =
     foldl (\<lambda>m c. AList.update (contact_pk c) (contact_company c) m) [] (contacts_tbl d)"

definition fetch_product_prices :: "database \<Rightarrow> (nat \<times> int) list" where
  "fetch_product_prices d =
     foldl (\<lambda>m p. AList.update (product_pk p) (product_price p) m) [] (products_tbl d)"

text \<open>\<^verbatim>\<open>str(n)\<close> for a natural number, and \<^verbatim>\<open>str.upper()\<close>.\<close>

fun show_nat :: "nat \<Rightarrow> string" where
  "show_nat n = (if n < 10 then [char_of (48 + n)]
                 else show_nat (n div 10) @ [char_of (48 + n mod 10)])"

declare show_nat.simps [simp del]

definition upper_char :: "char \<Rightarrow> char" where
  "upper_char c = (let n = of_char c :: nat in if 97 \<le> n \<and> n \<le> 122 then char_of (n - 32) else c)"

definition py_upper :: "string \<Rightarrow> string" where
  "py_upper s = map upper_char s"

section \<open>Generators\<close>

text \<open>
  A generator returns \<open>None\<close> when one of its \<^verbatim>\<open>while\<close> loops never ends,
  \<open>Some (Inl e)\<close> when it raises \<open>e\<close>, and \<open>Some (Inr (result, w))\<close> when it returns
  \<open>result\<close> and leaves the sources and the connection as \<open>w\<close>.

  \<open>for_loop body xs st w\<close> is \<^verbatim>\<open>for x in xs: body\<close>, where the body reads and updates the
  local variables \<open>st\<close>; \<^verbatim>\<open>range(count)\<close> is \<open>[0..<nat count]\<close>, empty for a count of zero
  or less.
\<close>

fun for_loop :: "('i \<Rightarrow> 's \<Rightarrow> world \<Rightarrow> (error + 's \<times> world) option) \<Rightarrow> 'i list \<Rightarrow> 's \<Rightarrow> world
    \<Rightarrow> (error + 's \<times> world) option" where
  "for_loop body [] st w = Some (Inr (st, w))"
| "for_loop body (x # xs) st w =
     (case body x st w of
        None \<Rightarrow> None
      | Some (Inl e) \<Rightarrow> Some (Inl e)
      | Some (Inr (st', w')) \<Rightarrow> for_loop body xs st' w')"

definition py_range :: "int \<Rightarrow> nat list" where
  "py_range count = [0..<nat count]"

subsection \<open>The module's constant lists\<close>

definition INDUSTRIES :: "string list" where
  "INDUSTRIES = [''Technology'', ''Healthcare'', ''Finance'', ''Manufacturing'', ''Retail'',
     ''Education'', ''Real Estate'', ''Consulting'', ''Marketing'', ''Legal'',
     ''Energy'', ''Transportation'', ''Hospitality'', ''Construction'', ''Agriculture'',
     ''Telecommunications'', ''Media'', ''Insurance'', ''Pharmaceutical'', ''Automotive'']"

definition DEAL_STAGES :: "(string \<times> int) list" where
  "DEAL_STAGES = [(''prospecting'', 10), (''qualification'', 25), (''proposal'', 50),
     (''negotiation'', 75), (''closed_won'', 100), (''closed_lost'', 0)]"

definition PRODUCT_CATEGORIES :: "string list" where
  "PRODUCT_CATEGORIES = [''Software'', ''Hardware'', ''Services'', ''Support'', ''Training'',
     ''Consulting'', ''Subscription'', ''License'', ''Integration'', ''Custom Development'']"

definition ACTIVITY_TYPES :: "string list" where
  "ACTIVITY_TYPES = [''call'', ''email'', ''meeting'', ''demo'', ''follow_up'']"

definition TASK_STATUSES :: "string list" where
  "TASK_STATUSES = [''pending'', ''in_progress'', ''completed'', ''cancelled'']"

definition product_prefixes :: "string list" where
  "product_prefixes = [''Pro'', ''Enterprise'', ''Basic'', ''Premium'', ''Ultimate'',
     ''Starter'', ''Business'', ''Team'']"

definition product_types :: "string list" where
  "product_types = [''Suite'', ''Platform'', ''Solution'', ''Package'', ''Service'',
     ''Module'', ''Add-on'', ''License'']"

subsection \<open>\<^verbatim>\<open>generate_companies\<close>\<close>

definition company_body :: "nat \<Rightarrow> nat list \<Rightarrow> world \<Rightarrow> (error + nat list \<times> world) option" where
  "company_body i company_ids w =
     (case fake_next w of (name, w1) \<Rightarrow>
        let w2 = discard_fake 7 (discard_rand 3 w1) in
        case next_id ''companies'' (conn w2) of (new_id, d) \<Rightarrow>
          Some (Inr (company_ids @ [new_id],
            w2\<lparr>conn := d\<lparr>companies_tbl := companies_tbl d
                    @ [\<lparr>company_pk = new_id, company_name = name\<rparr>]\<rparr>\<rparr>)))"

definition generate_companies :: "int \<Rightarrow> world \<Rightarrow> (error + nat list \<times> world) option" where
  "generate_companies count w = for_loop company_body (py_range count) [] w"

subsection \<open>\<^verbatim>\<open>generate_contacts\<close>\<close>

text \<open>
  \<^verbatim>\<open>while email in used_emails:\<close> builds a new address from the same names, the counter
  and a fresh domain name, until the address is unused.
\<close>

partial_function (option) email_loop ::
    "string \<Rightarrow> string set \<Rightarrow> string \<Rightarrow> nat \<Rightarrow> world \<Rightarrow> (string \<times> world) option" where
  "email_loop names used_emails email counter w =
     (if email \<in> used_emails then
        (case fake_next w of (domain, w') \<Rightarrow>
           email_loop names used_emails (names @ show_nat counter @ ''@'' @ domain)
             (counter + 1) w')
      else Some (email, w))"

definition contact_body :: "nat list \<Rightarrow> nat
    \<Rightarrow> nat list \<times> (nat \<times> nat) list \<times> string set \<Rightarrow> world
    \<Rightarrow> (error + (nat list \<times> (nat \<times> nat) list \<times> string set) \<times> world) option" where
  "contact_body company_ids i st w =
     (case st of (contact_ids, contact_company_map, used_emails) \<Rightarrow>
      case random_choice company_ids w of
        Inl e \<Rightarrow> Some (Inl e)
      | Inr (company_id, w1) \<Rightarrow>
          (case fake_next (discard_rand 2 w1) of (first_name, w2) \<Rightarrow>
           case fake_next w2 of (last_name, w3) \<Rightarrow>
           case fake_next w3 of (domain, w4) \<Rightarrow>
           let names = py_lower first_name @ ''.'' @ py_lower last_name in
           case email_loop names used_emails (names @ ''@'' @ domain) 1 w4 of
             None \<Rightarrow> None
           | Some (email, w5) \<Rightarrow>
               let w6 = discard_fake 4 w5 in
               case next_id ''contacts'' (conn w6) of (new_id, d) \<Rightarrow>
                 Some (Inr ((contact_ids @ [new_id],
                             AList.update new_id company_id contact_company_map,
                             insert email used_emails),
                   w6\<lparr>conn := d\<lparr>contacts_tbl := contacts_tbl d
                     @ [\<lparr>contact_pk = new_id, contact_company = company_id,
                          contact_first_name = first_name, contact_last_name = last_name,
                          contact_email = email, contact_is_primary = (i mod 5 = 0)\<rparr>]\<rparr>\<rparr>))))"

definition generate_contacts :: "nat list \<Rightarrow> int \<Rightarrow> world
    \<Rightarrow> (error + (nat list \<times> (nat \<times> nat) list) \<times> world) option" where
  "generate_contacts company_ids count w =
     (case for_loop (contact_body company_ids) (py_range count) ([], [], {}) w of
        None \<Rightarrow> None
      | Some (Inl e) \<Rightarrow> Some (Inl e)
      | Some (Inr ((contact_ids, contact_company_map, used_emails), w')) \<Rightarrow>
          Some (Inr ((contact_ids, contact_company_map), w')))"

subsection \<open>\<^verbatim>\<open>generate_products\<close>\<close>

text \<open>\<^verbatim>\<open>while sku in used_skus:\<close> draws a new number for the same category prefix.\<close>

partial_function (option) sku_loop ::
    "string \<Rightarrow> string set \<Rightarrow> string \<Rightarrow> world \<Rightarrow> (string \<times> world) option" where
  "sku_loop prefix used_skus sku w =
     (if sku \<in> used_skus then
        (case randint 1000 9999 w of (n, w') \<Rightarrow>
           sku_loop prefix used_skus (prefix @ ''-'' @ show_nat (nat n)) w')
      else Some (sku, w))"

definition product_body :: "nat \<Rightarrow> (nat \<times> int) list \<times> string set \<Rightarrow> world
    \<Rightarrow> (error + ((nat \<times> int) list \<times> string set) \<times> world) option" where
  "product_body i st w =
     (case st of (product_data, used_skus) \<Rightarrow>
      case pick product_prefixes w of (prefix, w1) \<Rightarrow>
      case pick product_types w1 of (prod_type, w2) \<Rightarrow>
      case pick PRODUCT_CATEGORIES w2 of (category, w3) \<Rightarrow>
      case randint 1000 9999 w3 of (n, w4) \<Rightarrow>
      let sku_prefix = py_upper (take 3 category) in
      case sku_loop sku_prefix used_skus (sku_prefix @ ''-'' @ show_nat (nat n)) w4 of
        None \<Rightarrow> None
      | Some (sku, w5) \<Rightarrow>
          (case randint 99 99999 w5 of (units, w6) \<Rightarrow>
           case randint 0 99 w6 of (cents, w7) \<Rightarrow>
           let w8 = discard_fake 2 (discard_rand 1 w7) in
           case next_id ''products'' (conn w8) of (new_id, d) \<Rightarrow>
             Some (Inr ((AList.update new_id (100 * units + cents) product_data,
                         insert sku used_skus),
               w8\<lparr>conn := d\<lparr>products_tbl := products_tbl d
                 @ [\<lparr>product_pk = new_id,
                      product_name = prefix @ '' '' @ category @ '' '' @ prod_type,
                      product_price = 100 * units + cents, product_sku = sku,
                      product_category = category\<rparr>]\<rparr>\<rparr>))))"

definition generate_products :: "int \<Rightarrow> world \<Rightarrow> (error + (nat \<times> int) list \<times> world) option" where
  "generate_products count w =
     (case for_loop product_body (py_range count) ([], {}) w of
        None \<Rightarrow> None
      | Some (Inl e) \<Rightarrow> Some (Inl e)
      | Some (Inr ((product_data, used_skus), w')) \<Rightarrow> Some (Inr (product_data, w')))"

subsection \<open>\<^verbatim>\<open>generate_deals\<close>\<close>

text \<open>
  The parameter \<^verbatim>\<open>contact_ids\<close> is not read by the body: the contact of a deal is chosen
  among the keys of \<^verbatim>\<open>contact_company_map\<close> whose value is the chosen company.
\<close>

definition closed_stage :: "string \<Rightarrow> bool" where
  "closed_stage s = (s = ''closed_won'' \<or> s = ''closed_lost'')"

text \<open>
  Three statements of the loop body that draw only on one of their branches:
  \<^verbatim>\<open>contact_id = random.choice(company_contacts) if company_contacts else None\<close>, the
  probability of the stage with its random offset for an open stage, and
  \<^verbatim>\<open>actual_close\<close>, a date for a closed stage and \<^verbatim>\<open>None\<close> otherwise (after the draw
  for \<^verbatim>\<open>expected_close\<close>).
\<close>

definition choose_contact :: "nat list \<Rightarrow> world \<Rightarrow> nat option \<times> world" where
  "choose_contact company_contacts w =
     (if company_contacts \<noteq> []
      then (case pick company_contacts w of (c, w') \<Rightarrow> (Some c, w'))
      else (None, w))"

definition stage_probability :: "string \<Rightarrow> world \<Rightarrow> int \<times> world" where
  "stage_probability stage w =
     (if \<not> closed_stage stage
      then (case randint (- 10) 10 w of (delta, w') \<Rightarrow>
              (max 0 (min 100 (dict_get DEAL_STAGES stage 0 + delta)), w'))
      else (dict_get DEAL_STAGES stage 0, w))"

definition close_dates :: "string \<Rightarrow> world \<Rightarrow> string option \<times> world" where
  "close_dates stage w =
     (if closed_stage stage
      then (case fake_next (discard_fake 1 w) of (day, w') \<Rightarrow> (Some day, w'))
      else (None, discard_fake 1 w))"

definition deal_body :: "nat list \<Rightarrow> nat list \<Rightarrow> (nat \<times> nat) list \<Rightarrow> nat \<Rightarrow> nat list \<Rightarrow> world
    \<Rightarrow> (error + nat list \<times> world) option" where
  "deal_body company_ids contact_ids contact_company_map i deal_ids w =
     (case random_choice company_ids w of
        Inl e \<Rightarrow> Some (Inl e)
      | Inr (company_id, w1) \<Rightarrow>
          let company_contacts =
                map fst (filter (\<lambda>(cid, comp_id). comp_id = company_id) contact_company_map) in
          case choose_contact company_contacts w1 of (contact_id, w2) \<Rightarrow>
          case pick (map fst DEAL_STAGES) w2 of (stage, w3) \<Rightarrow>
          case stage_probability stage w3 of (probability, w4) \<Rightarrow>
          case randint 1000 500000 w4 of (amount, w5) \<Rightarrow>
          case close_dates stage w5 of (actual_close, w6) \<Rightarrow>
          let w7 = discard_fake 1 (discard_rand 1 (discard_fake 2 w6)) in
          case next_id ''deals'' (conn w7) of (new_id, d) \<Rightarrow>
            Some (Inr (deal_ids @ [new_id],
              w7\<lparr>conn := d\<lparr>deals_tbl := deals_tbl d
                @ [\<lparr>deal_pk = new_id, deal_company = company_id, deal_contact = contact_id,
                     deal_stage = stage, deal_probability = probability,
                     deal_value = amount, deal_actual_close = actual_close\<rparr>]\<rparr>\<rparr>)))"

definition generate_deals :: "nat list \<Rightarrow> nat list \<Rightarrow> (nat \<times> nat) list \<Rightarrow> int \<Rightarrow> world
    \<Rightarrow> (error + nat list \<times> world) option" where
  "generate_deals company_ids contact_ids contact_company_map count w =
     for_loop (deal_body company_ids contact_ids contact_company_map) (py_range count) [] w"

subsection \<open>\<^verbatim>\<open>generate_deal_products\<close>\<close>

text \<open>
  \<^verbatim>\<open>while len(deal_products) < count:\<close>, with the \<^verbatim>\<open>continue\<close> on a pair that was used.
  The unit price is a product of floats and is not kept in the row.
\<close>

partial_function (option) deal_products_loop ::
    "nat list \<Rightarrow> nat list \<Rightarrow> int \<Rightarrow> deal_product_row list \<Rightarrow> (nat \<times> nat) set \<Rightarrow> world
     \<Rightarrow> (error + deal_product_row list \<times> world) option" where
  "deal_products_loop deal_ids product_ids count rows used_pairs w =
     (if int (length rows) < count then
        (case random_choice deal_ids w of
           Inl e \<Rightarrow> Some (Inl e)
         | Inr (deal_id, w1) \<Rightarrow>
             (case random_choice product_ids w1 of
                Inl e \<Rightarrow> Some (Inl e)
              | Inr (product_id, w2) \<Rightarrow>
                  if (deal_id, product_id) \<in> used_pairs
                  then deal_products_loop deal_ids product_ids count rows used_pairs w2
                  else (case randint 1 20 (discard_rand 1 w2) of (quantity, w3) \<Rightarrow>
                          deal_products_loop deal_ids product_ids count
                            (rows @ [\<lparr>dp_deal = deal_id, dp_product = product_id,
                                       dp_quantity = quantity\<rparr>])
                            (insert (deal_id, product_id) used_pairs) (discard_rand 1 w3))))
      else Some (Inr (rows, w)))"

definition generate_deal_products :: "nat list \<Rightarrow> (nat \<times> int) list \<Rightarrow> int \<Rightarrow> world
    \<Rightarrow> (error + unit \<times> world) option" where
  "generate_deal_products deal_ids product_data count w =
     (case deal_products_loop deal_ids (map fst product_data) count [] {} w of
        None \<Rightarrow> None
      | Some (Inl e) \<Rightarrow> Some (Inl e)
      | Some (Inr (rows, w')) \<Rightarrow>
          Some (Inr ((), w'\<lparr>conn := (conn w')\<lparr>deal_products_tbl :=
                              deal_products_tbl (conn w') @ rows\<rparr>\<rparr>)))"

subsection \<open>Facts about draws and loops\<close>

lemma conn_rand_next [simp]: "conn (snd (rand_next w)) = conn w"
  by (simp add: rand_next_def)

lemma conn_fake_next [simp]: "conn (snd (fake_next w)) = conn w"
  by (simp add: fake_next_def)

lemma conn_discard_rand [simp]: "conn (discard_rand n w) = conn w"
  by (simp add: discard_rand_def)

lemma conn_discard_fake [simp]: "conn (discard_fake n w) = conn w"
  by (simp add: discard_fake_def)

lemma conn_randint [simp]: "conn (snd (randint a b w)) = conn w"
  by (simp add: randint_def rand_next_def)

lemma conn_pick [simp]: "conn (snd (pick xs w)) = conn w"
  by (simp add: pick_def rand_next_def)

lemma pick_member: "xs \<noteq> [] \<Longrightarrow> fst (pick xs w) \<in> set xs"
  by (simp add: pick_def rand_next_def)

lemma random_choice_Inr:
  "random_choice xs w = Inr (x, w') \<Longrightarrow> x \<in> set xs \<and> conn w' = conn w"
  by (auto simp: random_choice_def rand_next_def split: if_splits)

lemma random_choice_Inl:
  "random_choice xs w = Inl e \<Longrightarrow> xs = [] \<and> e = IndexError"
  by (auto simp: random_choice_def rand_next_def split: if_splits)

lemma random_choice_nonempty:
  "xs \<noteq> [] \<Longrightarrow> \<exists>x w'. random_choice xs w = Inr (x, w')"
  by (simp add: random_choice_def rand_next_def)

lemma for_loop_invariant:
  assumes "for_loop body xs st w = Some (Inr (st', w'))"
    and "I st w"
    and "\<And>x st w st1 w1. I st w \<Longrightarrow> body x st w = Some (Inr (st1, w1)) \<Longrightarrow> I st1 w1"
  shows "I st' w'"
  using assms(1,2)
proof (induction xs arbitrary: st w)
  case Nil
  then show ?case by simp
next
  case (Cons x xs)
  from Cons.prems(1) obtain st1 w1 where b: "body x st w = Some (Inr (st1, w1))"
    and r: "for_loop body xs st1 w1 = Some (Inr (st', w'))"
    by (auto split: option.splits sum.splits)
  from assms(3) [OF Cons.prems(2) b] have "I st1 w1" .
  from Cons.IH [OF r this] show ?case .
qed

lemma for_loop_count:
  assumes "for_loop body xs st w = Some (Inr (st', w'))"
    and "I n st w"
    and "\<And>x n st w st1 w1. I n st w \<Longrightarrow> body x st w = Some (Inr (st1, w1)) \<Longrightarrow> I (Suc n) st1 w1"
  shows "I (n + length xs) st' w'"
  using assms(1,2)
proof (induction xs arbitrary: st w n)
  case Nil
  then show ?case by simp
next
  case (Cons x xs)
  from Cons.prems(1) obtain st1 w1 where b: "body x st w = Some (Inr (st1, w1))"
    and r: "for_loop body xs st1 w1 = Some (Inr (st', w'))"
    by (auto split: option.splits sum.splits)
  from assms(3) [OF Cons.prems(2) b] have "I (Suc n) st1 w1" .
  from Cons.IH [OF r this] show ?case by simp
qed

lemma for_loop_no_error:
  assumes "for_loop body xs st w = Some (Inl e)"
    and "I st w"
    and "\<And>x st w st1 w1. I st w \<Longrightarrow> body x st w = Some (Inr (st1, w1)) \<Longrightarrow> I st1 w1"
    and "\<And>x st w e. I st w \<Longrightarrow> body x st w \<noteq> Some (Inl e)"
  shows False
  using assms(1,2)
proof (induction xs arbitrary: st w)
  case Nil
  then show ?case by simp
next
  case (Cons x xs)
  show ?case
  proof (cases "body x st w")
    case None
    then show ?thesis using Cons.prems(1) by simp
  next
    case (Some r)
    show ?thesis
    proof (cases r)
      case (Inl e')
      then show ?thesis using assms(4) [OF Cons.prems(2), of x e'] Some by simp
    next
      case (Inr p)
      obtain st1 w1 where p: "p = (st1, w1)" by (cases p)
      have b: "body x st w = Some (Inr (st1, w1))" using Some Inr p by simp
      then have r: "for_loop body xs st1 w1 = Some (Inl e)" using Cons.prems(1) by simp
      from Cons.IH [OF r assms(3) [OF Cons.prems(2) b]] show ?thesis .
    qed
  qed
qed

lemma for_loop_total:
  assumes "\<And>x st w. body x st w \<noteq> None"
  shows "for_loop body xs st w \<noteq> None"
proof (induction xs arbitrary: st w)
  case Nil
  then show ?case by simp
next
  case (Cons x xs)
  then show ?case using assms [of x st w] by (auto split: option.splits sum.splits)
qed

lemma for_loop_empty [simp]: "for_loop body (py_range 0) st w = Some (Inr (st, w))"
  by (simp add: py_range_def)

subsection \<open>The retry loops return an unused value\<close>

lemma email_loop_fresh:
  assumes "email_loop names used_emails email counter w = Some (e, w')"
  shows "e \<notin> used_emails \<and> conn w' = conn w"
proof -
  have "fst (e, w') \<notin> used_emails \<and> conn (snd (e, w')) = conn w"
  proof (rule email_loop.raw_induct [where P = "\<lambda>names used email counter w r.
      fst r \<notin> used \<and> conn (snd r) = conn w", OF _ assms])
    fix loop names used email counter w r
    assume IH: "\<And>names used email counter w r.
        loop names used email counter w = Some r \<Longrightarrow> fst r \<notin> used \<and> conn (snd r) = conn w"
      and eq: "(if email \<in> used
          then case fake_next w of
               (domain, w') \<Rightarrow>
                 loop names used (names @ show_nat counter @ ''@'' @ domain) (counter + 1) w'
          else Some (email, w)) = Some r"
    show "fst r \<notin> used \<and> conn (snd r) = conn w"
    proof (cases "email \<in> used")
      case False
      then show ?thesis using eq by auto
    next
      case True
      obtain domain w1 where f: "fake_next w = (domain, w1)" by (cases "fake_next w")
      then have "conn w1 = conn w" using conn_fake_next [of w] by simp
      moreover have "loop names used (names @ show_nat counter @ ''@'' @ domain)
          (counter + 1) w1 = Some r" using eq True f by simp
      ultimately show ?thesis using IH by metis
    qed
  qed
  then show ?thesis by simp
qed

lemma sku_loop_fresh:
  assumes "sku_loop prefix used_skus sku w = Some (s, w')"
  shows "s \<notin> used_skus \<and> conn w' = conn w"
proof -
  have "fst (s, w') \<notin> used_skus \<and> conn (snd (s, w')) = conn w"
  proof (rule sku_loop.raw_induct [where P = "\<lambda>prefix used sku w r.
      fst r \<notin> used \<and> conn (snd r) = conn w", OF _ assms])
    fix loop prefix used sku w r
    assume IH: "\<And>prefix used sku w r.
        loop prefix used sku w = Some r \<Longrightarrow> fst r \<notin> used \<and> conn (snd r) = conn w"
      and eq: "(if sku \<in> used
          then case randint 1000 9999 w of
               (n, w') \<Rightarrow> loop prefix used (prefix @ ''-'' @ show_nat (nat n)) w'
          else Some (sku, w)) = Some r"
    show "fst r \<notin> used \<and> conn (snd r) = conn w"
    proof (cases "sku \<in> used")
      case False
      then show ?thesis using eq by auto
    next
      case True
      obtain n w1 where f: "randint 1000 9999 w = (n, w1)" by (cases "randint 1000 9999 w")
      then have "conn w1 = conn w" using conn_randint [of 1000 9999 w] by simp
      moreover have "loop prefix used (prefix @ ''-'' @ show_nat (nat n)) w1 = Some r"
        using eq True f by simp
      ultimately show ?thesis using IH by metis
    qed
  qed
  then show ?thesis by simp
qed

lemma fake_next_conn: "fake_next w = (x, w') \<Longrightarrow> conn w' = conn w"
  using conn_fake_next [of w] by simp

lemma randint_conn: "randint a b w = (x, w') \<Longrightarrow> conn w' = conn w"
  using conn_randint [of a b w] by simp

lemma pick_conn: "pick xs w = (x, w') \<Longrightarrow> conn w' = conn w"
  using conn_pick [of xs w] by simp

lemma pick_in: "pick xs w = (x, w') \<Longrightarrow> xs \<noteq> [] \<Longrightarrow> x \<in> set xs"
  using pick_member [of xs w] by simp

subsection \<open>What one call adds to the store\<close>

lemma contact_body_row:
  assumes "contact_body company_ids i (ids, m, used) w = Some (Inr ((ids', m', used'), w'))"
  shows "\<exists>row. contacts_tbl (conn w') = contacts_tbl (conn w) @ [row]
           \<and> contact_email row \<notin> used \<and> used' = insert (contact_email row) used
           \<and> length ids' = Suc (length ids)"
proof -
  from assms obtain company_id w1 where c: "random_choice company_ids w = Inr (company_id, w1)"
    by (auto simp: contact_body_def split: sum.splits)
  obtain first_name w2 where f1: "fake_next (discard_rand 2 w1) = (first_name, w2)"
    by (cases "fake_next (discard_rand 2 w1)")
  obtain last_name w3 where f2: "fake_next w2 = (last_name, w3)" by (cases "fake_next w2")
  obtain domain w4 where f3: "fake_next w3 = (domain, w4)" by (cases "fake_next w3")
  let ?names = "py_lower first_name @ ''.'' @ py_lower last_name"
  from assms c f1 f2 f3 obtain email w5
    where l: "email_loop ?names used (?names @ ''@'' @ domain) 1 w4 = Some (email, w5)"
    by (auto simp: contact_body_def Let_def split: option.splits)
  have fresh: "email \<notin> used" and c5: "conn w5 = conn w4"
    using email_loop_fresh [OF l] by simp_all
  have cw: "conn w5 = conn w"
    using c5 fake_next_conn [OF f3] fake_next_conn [OF f2] fake_next_conn [OF f1]
      random_choice_Inr [OF c] by simp
  show ?thesis
    using assms c f1 f2 f3 l fresh cw
    by (auto simp: contact_body_def Let_def next_id_def)
qed

lemma generate_contacts_rows:
  assumes "generate_contacts company_ids count w = Some (Inr (r, w'))"
  shows "\<exists>rows. contacts_tbl (conn w') = contacts_tbl (conn w) @ rows
           \<and> length rows = nat count \<and> distinct (map contact_email rows)"
proof -
  from assms obtain ids m used
    where l: "for_loop (contact_body company_ids) (py_range count) ([], [], {}) w
               = Some (Inr ((ids, m, used), w'))"
    by (auto simp: generate_contacts_def split: option.splits sum.splits)
  define I where "I = (\<lambda>n (st :: nat list \<times> (nat \<times> nat) list \<times> string set) (w1 :: world).
      \<exists>rows. contacts_tbl (conn w1) = contacts_tbl (conn w) @ rows
        \<and> snd (snd st) = set (map contact_email rows)
        \<and> distinct (map contact_email rows) \<and> length rows = n)"
  have start: "I 0 ([], [], {}) w" by (simp add: I_def)
  have step: "I (Suc n) st1 w1"
    if "I n st w0" "contact_body company_ids x st w0 = Some (Inr (st1, w1))"
    for x n st w0 st1 w1
  proof -
    obtain a b c where st: "st = (a, b, c)" by (cases st)
    obtain a1 b1 c1 where st1: "st1 = (a1, b1, c1)" by (cases st1)
    from that(1) st obtain rows where rows: "contacts_tbl (conn w0) = contacts_tbl (conn w) @ rows"
      "c = set (map contact_email rows)" "distinct (map contact_email rows)" "length rows = n"
      by (auto simp: I_def)
    from contact_body_row [OF that(2) [unfolded st st1]] obtain row
      where row: "contacts_tbl (conn w1) = contacts_tbl (conn w0) @ [row]"
        "contact_email row \<notin> c" "c1 = insert (contact_email row) c" by blast
    have "contacts_tbl (conn w1) = contacts_tbl (conn w) @ (rows @ [row])
      \<and> snd (snd st1) = set (map contact_email (rows @ [row]))
      \<and> distinct (map contact_email (rows @ [row])) \<and> length (rows @ [row]) = Suc n"
      using rows row st1 by auto
    then show ?thesis unfolding I_def by blast
  qed
  have "I (0 + length (py_range count)) (ids, m, used) w'"
    using l start step by (rule for_loop_count)
  then show ?thesis by (auto simp: I_def py_range_def)
qed

lemma product_body_row:
  assumes "product_body i (pd, used) w = Some (Inr ((pd', used'), w'))"
  shows "\<exists>row. products_tbl (conn w') = products_tbl (conn w) @ [row]
           \<and> product_sku row \<notin> used \<and> used' = insert (product_sku row) used"
proof -
  obtain prefix w1 where p1: "pick product_prefixes w = (prefix, w1)"
    by (cases "pick product_prefixes w")
  obtain prod_type w2 where p2: "pick product_types w1 = (prod_type, w2)"
    by (cases "pick product_types w1")
  obtain category w3 where p3: "pick PRODUCT_CATEGORIES w2 = (category, w3)"
    by (cases "pick PRODUCT_CATEGORIES w2")
  obtain n w4 where r1: "randint 1000 9999 w3 = (n, w4)" by (cases "randint 1000 9999 w3")
  let ?pre = "py_upper (take 3 category)"
  from assms p1 p2 p3 r1 obtain sku w5
    where l: "sku_loop ?pre used (?pre @ ''-'' @ show_nat (nat n)) w4 = Some (sku, w5)"
    by (auto simp: product_body_def Let_def split: option.splits)
  obtain units w6 where r2: "randint 99 99999 w5 = (units, w6)" by (cases "randint 99 99999 w5")
  obtain cents w7 where r3: "randint 0 99 w6 = (cents, w7)" by (cases "randint 0 99 w6")
  have fresh: "sku \<notin> used" and c5: "conn w5 = conn w4"
    using sku_loop_fresh [OF l] by simp_all
  have cw: "conn w7 = conn w"
    using c5 pick_conn [OF p1] pick_conn [OF p2] pick_conn [OF p3] randint_conn [OF r1]
      randint_conn [OF r2] randint_conn [OF r3] by simp
  show ?thesis
    using assms p1 p2 p3 r1 l r2 r3 fresh cw
    by (auto simp: product_body_def Let_def next_id_def)
qed

lemma generate_products_rows:
  assumes "generate_products count w = Some (Inr (r, w'))"
  shows "\<exists>rows. products_tbl (conn w') = products_tbl (conn w) @ rows
           \<and> length rows = nat count \<and> distinct (map product_sku rows)"
proof -
  from assms obtain used
    where l: "for_loop product_body (py_range count) ([], {}) w = Some (Inr ((r, used), w'))"
    by (auto simp: generate_products_def split: option.splits sum.splits)
  define I where "I = (\<lambda>n (st :: (nat \<times> int) list \<times> string set) (w1 :: world).
      \<exists>rows. products_tbl (conn w1) = products_tbl (conn w) @ rows
        \<and> snd st = set (map product_sku rows)
        \<and> distinct (map product_sku rows) \<and> length rows = n)"
  have start: "I 0 ([], {}) w" by (simp add: I_def)
  have step: "I (Suc n) st1 w1"
    if "I n st w0" "product_body x st w0 = Some (Inr (st1, w1))"
    for x n st w0 st1 w1
  proof -
    obtain a c where st: "st = (a, c)" by (cases st)
    obtain a1 c1 where st1: "st1 = (a1, c1)" by (cases st1)
    from that(1) st obtain rows where rows: "products_tbl (conn w0) = products_tbl (conn w) @ rows"
      "c = set (map product_sku rows)" "distinct (map product_sku rows)" "length rows = n"
      by (auto simp: I_def)
    from product_body_row [OF that(2) [unfolded st st1]] obtain row
      where row: "products_tbl (conn w1) = products_tbl (conn w0) @ [row]"
        "product_sku row \<notin> c" "c1 = insert (product_sku row) c" by blast
    have "products_tbl (conn w1) = products_tbl (conn w) @ (rows @ [row])
      \<and> snd st1 = set (map product_sku (rows @ [row]))
      \<and> distinct (map product_sku (rows @ [row])) \<and> length (rows @ [row]) = Suc n"
      using rows row st1 by auto
    then show ?thesis unfolding I_def by blast
  qed
  have "I (0 + length (py_range count)) (r, used) w'"
    using l start step by (rule for_loop_count)
  then show ?thesis by (auto simp: I_def py_range_def)
qed

definition dp_pair :: "deal_product_row \<Rightarrow> nat \<times> nat" where
  "dp_pair r = (dp_deal r, dp_product r)"

lemma deal_products_loop_rows:
  assumes "deal_products_loop deal_ids product_ids count rows used w = Some (Inr (rows', w'))"
    and "used = set (map dp_pair rows)" and "distinct (map dp_pair rows)"
  shows "distinct (map dp_pair rows') \<and> (\<exists>new. rows' = rows @ new) \<and> conn w' = conn w
         \<and> length rows' = max (length rows) (nat count)
         \<and> set (map dp_pair rows') \<subseteq> set (map dp_pair rows) \<union> set deal_ids \<times> set product_ids"
proof -
  let ?Q = "\<lambda>deal_ids product_ids count rows (w :: world) rows' (w' :: world).
      distinct (map dp_pair rows') \<and> (\<exists>new. rows' = rows @ new) \<and> conn w' = conn w
      \<and> length rows' = max (length rows) (nat count)
      \<and> set (map dp_pair rows') \<subseteq> set (map dp_pair rows) \<union> set deal_ids \<times> set product_ids"
  let ?P = "\<lambda>deal_ids product_ids count rows used w
        (r :: error + deal_product_row list \<times> world).
      used = set (map dp_pair rows) \<longrightarrow> distinct (map dp_pair rows) \<longrightarrow>
      (\<forall>rows' w'. r = Inr (rows', w') \<longrightarrow> ?Q deal_ids product_ids count rows w rows' w')"
  have "?P deal_ids product_ids count rows used w (Inr (rows', w'))"
  proof (rule deal_products_loop.raw_induct [where P = ?P, OF _ assms(1)])
    fix loop deal_ids product_ids count rows used w r
    assume IH: "\<And>deal_ids product_ids count rows used w r.
        loop deal_ids product_ids count rows used w = Some r \<Longrightarrow>
        ?P deal_ids product_ids count rows used w r"
      and eq: "(if int (length rows) < count
         then case random_choice deal_ids w of
              Inl e \<Rightarrow> Some (Inl e)
            | Inr (deal_id, w1) \<Rightarrow>
                (case random_choice product_ids w1 of
                   Inl e \<Rightarrow> Some (Inl e)
                 | Inr (product_id, w2) \<Rightarrow>
                     if (deal_id, product_id) \<in> used
                     then loop deal_ids product_ids count rows used w2
                     else (case randint 1 20 (discard_rand 1 w2) of
                             (quantity, w3) \<Rightarrow>
                               loop deal_ids product_ids count
                                 (rows @ [\<lparr>dp_deal = deal_id, dp_product = product_id,
                                            dp_quantity = quantity\<rparr>])
                                 (insert (deal_id, product_id) used) (discard_rand 1 w3)))
         else Some (Inr (rows, w))) = Some r"
    show "?P deal_ids product_ids count rows used w r"
    proof (intro impI allI)
      fix rows' w'
      assume u: "used = set (map dp_pair rows)" and d: "distinct (map dp_pair rows)"
        and r: "r = Inr (rows', w')"
      show "?Q deal_ids product_ids count rows w rows' w'"
      proof (cases "int (length rows) < count")
        case False
        then have "rows' = rows" "w' = w" using eq r by simp_all
        then show ?thesis using d False by auto
      next
        case True
        from eq True r obtain deal_id w1 where c1: "random_choice deal_ids w = Inr (deal_id, w1)"
          by (auto split: sum.splits)
        from eq True r c1 obtain product_id w2
          where c2: "random_choice product_ids w1 = Inr (product_id, w2)"
          by (auto split: sum.splits)
        have mem: "deal_id \<in> set deal_ids" "product_id \<in> set product_ids"
          and cw: "conn w2 = conn w"
          using random_choice_Inr [OF c1] random_choice_Inr [OF c2] by simp_all
        show ?thesis
        proof (cases "(deal_id, product_id) \<in> used")
          case True
          then have "loop deal_ids product_ids count rows used w2 = Some r"
            using eq \<open>int (length rows) < count\<close> c1 c2 by simp
          from IH [OF this] u d r have "?Q deal_ids product_ids count rows w2 rows' w'" by blast
          then show ?thesis unfolding cw .
        next
          case False
          obtain quantity w3 where q: "randint 1 20 (discard_rand 1 w2) = (quantity, w3)"
            by (cases "randint 1 20 (discard_rand 1 w2)")
          let ?row = "\<lparr>dp_deal = deal_id, dp_product = product_id, dp_quantity = quantity\<rparr>"
          have l: "loop deal_ids product_ids count (rows @ [?row])
              (insert (deal_id, product_id) used) (discard_rand 1 w3) = Some r"
            using eq \<open>int (length rows) < count\<close> c1 c2 False q by simp
          have u': "insert (deal_id, product_id) used = set (map dp_pair (rows @ [?row]))"
            using u by (simp add: dp_pair_def)
          have d': "distinct (map dp_pair (rows @ [?row]))"
            using d u False by (simp add: dp_pair_def)
          from IH [OF l] u' d' r
          have Q: "?Q deal_ids product_ids count (rows @ [?row]) (discard_rand 1 w3) rows' w'"
            by blast
          have c3: "conn (discard_rand 1 w3) = conn w"
            using randint_conn [OF q] cw by simp
          have len: "max (length (rows @ [?row])) (nat count) = max (length rows) (nat count)"
            using \<open>int (length rows) < count\<close> by auto
          have sub: "set (map dp_pair (rows @ [?row]))
              \<subseteq> set (map dp_pair rows) \<union> set deal_ids \<times> set product_ids"
            using mem by (auto simp: dp_pair_def)
          from Q obtain new where new: "rows' = (rows @ [?row]) @ new" by blast
          then have "rows' = rows @ (?row # new)" by simp
          then have ex: "\<exists>new. rows' = rows @ new" by blast
          from Q have q1: "distinct (map dp_pair rows')"
            and q3: "conn w' = conn (discard_rand 1 w3)"
            and q4: "length rows' = max (length (rows @ [?row])) (nat count)"
            and q5: "set (map dp_pair rows')
              \<subseteq> set (map dp_pair (rows @ [?row])) \<union> set deal_ids \<times> set product_ids"
            by blast+
          have r3: "conn w' = conn w" using q3 c3 by (rule trans)
          have r4: "length rows' = max (length rows) (nat count)" using q4 len by (rule trans)
          have r5: "set (map dp_pair rows')
              \<subseteq> set (map dp_pair rows) \<union> set deal_ids \<times> set product_ids"
            using q5 sub by blast
          show ?thesis by (intro conjI q1 ex r3 r4 r5)
        qed
      qed
    qed
  qed
  then show ?thesis using assms(2,3) by blast
qed

lemma generate_deal_products_rows:
  assumes "generate_deal_products deal_ids product_data count w = Some (Inr (u, w'))"
  shows "\<exists>rows. deal_products_tbl (conn w') = deal_products_tbl (conn w) @ rows
           \<and> length rows = nat count \<and> distinct (map dp_pair rows)
           \<and> set (map dp_pair rows) \<subseteq> set deal_ids \<times> fst ` set product_data"
proof -
  from assms obtain rows w1
    where l: "deal_products_loop deal_ids (map fst product_data) count [] {} w
               = Some (Inr (rows, w1))"
      and w': "w' = w1\<lparr>conn := (conn w1)\<lparr>deal_products_tbl :=
                              deal_products_tbl (conn w1) @ rows\<rparr>\<rparr>"
    by (auto simp: generate_deal_products_def split: option.splits sum.splits)
  from deal_products_loop_rows [OF l] have "distinct (map dp_pair rows)" "conn w1 = conn w"
    "length rows = nat count" "set (map dp_pair rows) \<subseteq> set deal_ids \<times> fst ` set product_data"
    by auto
  then show ?thesis using w' by auto
qed

lemma deal_body_row:
  assumes "deal_body company_ids contact_ids m i ids w = Some (Inr (ids', w'))"
  shows "\<exists>row. deals_tbl (conn w') = deals_tbl (conn w) @ [row]
           \<and> deal_company row \<in> set company_ids
           \<and> (case deal_contact row of
                 None \<Rightarrow> deal_company row \<notin> snd ` set m
               | Some c \<Rightarrow> (c, deal_company row) \<in> set m)"
proof -
  from assms obtain company_id w1 where c: "random_choice company_ids w = Inr (company_id, w1)"
    by (auto simp: deal_body_def split: sum.splits)
  define company_contacts
    where "company_contacts = map fst (filter (\<lambda>(cid, comp_id). comp_id = company_id) m)"
  obtain contact_id w2 where ch: "choose_contact company_contacts w1 = (contact_id, w2)"
    by (cases "choose_contact company_contacts w1")
  have c2: "conn w2 = conn w1"
    using ch pick_conn [of company_contacts w1]
    by (auto simp: choose_contact_def split: if_splits prod.splits)
  have contact: "case contact_id of None \<Rightarrow> company_id \<notin> snd ` set m
      | Some c \<Rightarrow> (c, company_id) \<in> set m"
  proof (cases "company_contacts = []")
    case True
    then have "contact_id = None" using ch by (simp add: choose_contact_def)
    moreover have "company_id \<notin> snd ` set m"
      using True by (auto simp: company_contacts_def filter_empty_conv)
    ultimately show ?thesis by simp
  next
    case False
    obtain x w'' where p: "pick company_contacts w1 = (x, w'')"
      by (cases "pick company_contacts w1")
    then have "contact_id = Some x" using ch False by (simp add: choose_contact_def)
    moreover have "x \<in> set company_contacts" using pick_in [OF p False] .
    then have "(x, company_id) \<in> set m" by (auto simp: company_contacts_def)
    ultimately show ?thesis by simp
  qed
  obtain stage w3 where s: "pick (map fst DEAL_STAGES) w2 = (stage, w3)"
    by (cases "pick (map fst DEAL_STAGES) w2")
  obtain probability w4 where pr: "stage_probability stage w3 = (probability, w4)"
    by (cases "stage_probability stage w3")
  have c4: "conn w4 = conn w3"
    using pr randint_conn [of "- 10" 10 w3]
    by (auto simp: stage_probability_def split: if_splits prod.splits)
  obtain amount w5 where a: "randint 1000 500000 w4 = (amount, w5)"
    by (cases "randint 1000 500000 w4")
  obtain actual_close w6 where cl: "close_dates stage w5 = (actual_close, w6)"
    by (cases "close_dates stage w5")
  have c6: "conn w6 = conn w5"
    using cl fake_next_conn [of "discard_fake 1 w5"]
    by (auto simp: close_dates_def split: if_splits prod.splits)
  have cw: "conn w6 = conn w"
    using c6 randint_conn [OF a] c4 pick_conn [OF s] c2 random_choice_Inr [OF c] by simp
  have mem: "company_id \<in> set company_ids" using random_choice_Inr [OF c] by simp
  let ?w7 = "discard_fake 1 (discard_rand 1 (discard_fake 2 w6))"
  let ?row = "\<lparr>deal_pk = Suc (last_id (conn w) ''deals''), deal_company = company_id,
      deal_contact = contact_id, deal_stage = stage, deal_probability = probability,
      deal_value = amount, deal_actual_close = actual_close\<rparr>"
  have "deal_body company_ids contact_ids m i ids w =
      Some (Inr (ids @ [Suc (last_id (conn w) ''deals'')],
        ?w7\<lparr>conn := (conn w)\<lparr>last_id := (last_id (conn w))(''deals'' :=
                     Suc (last_id (conn w) ''deals'')),
                   deals_tbl := deals_tbl (conn w) @ [?row]\<rparr>\<rparr>))"
    using c ch [unfolded company_contacts_def] s pr a cl cw
    by (simp add: deal_body_def Let_def next_id_def)
  then have "deals_tbl (conn w') = deals_tbl (conn w) @ [?row]" using assms by auto
  then show ?thesis using mem contact by (intro exI [of _ ?row]) (simp split: option.splits)
qed

lemma generate_deals_rows:
  assumes "generate_deals company_ids contact_ids m count w = Some (Inr (ids, w'))"
  shows "\<exists>rows. deals_tbl (conn w') = deals_tbl (conn w) @ rows \<and> length rows = nat count
           \<and> (\<forall>d\<in>set rows. deal_company d \<in> set company_ids
                 \<and> (case deal_contact d of
                       None \<Rightarrow> deal_company d \<notin> snd ` set m
                     | Some c \<Rightarrow> (c, deal_company d) \<in> set m))"
proof -
  let ?ok = "\<lambda>d. deal_company d \<in> set company_ids
      \<and> (case deal_contact d of
            None \<Rightarrow> deal_company d \<notin> snd ` set m
          | Some c \<Rightarrow> (c, deal_company d) \<in> set m)"
  define I where "I = (\<lambda>n (st :: nat list) (w1 :: world).
      \<exists>rows. deals_tbl (conn w1) = deals_tbl (conn w) @ rows \<and> length rows = n
        \<and> (\<forall>d\<in>set rows. ?ok d))"
  have l: "for_loop (deal_body company_ids contact_ids m) (py_range count) [] w
      = Some (Inr (ids, w'))" using assms by (simp add: generate_deals_def)
  have start: "I 0 [] w" by (simp add: I_def)
  have step: "I (Suc n) st1 w1"
    if "I n st w0" "deal_body company_ids contact_ids m x st w0 = Some (Inr (st1, w1))"
    for x n st w0 st1 w1
  proof -
    from that(1) obtain rows where rows: "deals_tbl (conn w0) = deals_tbl (conn w) @ rows"
      "length rows = n" "\<forall>d\<in>set rows. ?ok d" unfolding I_def by blast
    from deal_body_row [OF that(2)] obtain row
      where row: "deals_tbl (conn w1) = deals_tbl (conn w0) @ [row]" "?ok row" by blast
    have "deals_tbl (conn w1) = deals_tbl (conn w) @ (rows @ [row])
      \<and> length (rows @ [row]) = Suc n \<and> (\<forall>d\<in>set (rows @ [row]). ?ok d)"
      using rows row by simp
    then show ?thesis unfolding I_def by blast
  qed
  have "I (0 + length (py_range count)) ids w'"
    using l start step by (rule for_loop_count)
  then show ?thesis by (simp add: I_def py_range_def)
qed

lemma for_loop_returns:
  assumes "\<And>x st w. \<exists>st' w'. body x st w = Some (Inr (st', w'))"
  shows "\<exists>st' w'. for_loop body xs st w = Some (Inr (st', w'))"
proof (induction xs arbitrary: st w)
  case Nil
  then show ?case by simp
next
  case (Cons x xs)
  from assms [of x st w] obtain st1 w1 where "body x st w = Some (Inr (st1, w1))" by blast
  then show ?case using Cons.IH [of st1 w1] by simp
qed

lemma deal_body_returns:
  "company_ids \<noteq> [] \<Longrightarrow>
   \<exists>ids' w'. deal_body company_ids contact_ids m i ids w = Some (Inr (ids', w'))"
  by (simp add: deal_body_def random_choice_def Let_def case_prod_beta)

lemma generate_deals_returns:
  "company_ids \<noteq> [] \<Longrightarrow>
   \<exists>ids w'. generate_deals company_ids contact_ids m count w = Some (Inr (ids, w'))"
  unfolding generate_deals_def by (rule for_loop_returns) (rule deal_body_returns)

subsection \<open>A sample run\<close>

text \<open>
  An empty store, and sources to evaluate the generators on: \<^verbatim>\<open>random\<close> delivers
  0, 0, 1, 1, 2, 2 and so on, and every name Faker delivers is \<^verbatim>\<open>Ann\<close>, so that the
  loop for an unused address has to run. \<open>deals_made\<close>, \<open>contacts_made\<close>,
  \<open>products_made\<close> and \<open>pairs_made\<close> read the rows of the connection that a generator
  returns.
\<close>

definition empty_store :: database where
  "empty_store = \<lparr>companies_tbl = [], contacts_tbl = [], products_tbl = [], deals_tbl = [],
     deal_products_tbl = [], activities_tbl = [], notes_tbl = [], tasks_tbl = [],
     last_id = (\<lambda>t. 0)\<rparr>"

definition sample_world :: world where
  "sample_world = \<lparr>rand_out = (\<lambda>i. i div 2), rand_pos = 0,
     fake_out = (\<lambda>i. ''Ann''), fake_pos = 0, conn = empty_store\<rparr>"

definition final_conn :: "(error + 'a \<times> world) option \<Rightarrow> database option" where
  "final_conn r = (case r of Some (Inr (x, w)) \<Rightarrow> Some (conn w) | _ \<Rightarrow> None)"

definition deals_made :: "(error + 'a \<times> world) option \<Rightarrow> deal_row list" where
  "deals_made r = (case final_conn r of Some d \<Rightarrow> deals_tbl d | None \<Rightarrow> [])"

definition contacts_made :: "(error + 'a \<times> world) option \<Rightarrow> contact_row list" where
  "contacts_made r = (case final_conn r of Some d \<Rightarrow> contacts_tbl d | None \<Rightarrow> [])"

definition products_made :: "(error + 'a \<times> world) option \<Rightarrow> product_row list" where
  "products_made r = (case final_conn r of Some d \<Rightarrow> products_tbl d | None \<Rightarrow> [])"

definition pairs_made :: "(error + 'a \<times> world) option \<Rightarrow> (nat \<times> nat) list" where
  "pairs_made r = (case final_conn r of Some d \<Rightarrow> map dp_pair (deal_products_tbl d) | None \<Rightarrow> [])"

lemma final_conn_Some:
  "final_conn r = Some d \<Longrightarrow> \<exists>x w. r = Some (Inr (x, w)) \<and> conn w = d"
  by (auto simp: final_conn_def split: option.splits sum.splits)

declare email_loop.simps [code]
declare sku_loop.simps [code]
declare deal_products_loop.simps [code]

lemma sample_contacts:
  "map contact_email (contacts_made (generate_contacts [5, 6] 3 sample_world))
     = [''ann.ann@Ann'', ''ann.ann1@Ann'', ''ann.ann2@Ann'']"
  by code_simp

lemma sample_products:
  "map product_sku (products_made (generate_products 2 sample_world))
     = [''HAR-1001'', ''TRA-1005'']"
  by code_simp

lemma sample_pairs:
  "pairs_made (generate_deal_products [1, 2] [(9, 1), (8, 5)] 3 sample_world)
     = [(1, 9), (1, 8), (2, 8)]"
  by code_simp

lemma sample_deals:
  "map deal_company (deals_made (generate_deals [1, 2] [9] [(9, 1)] 2 sample_world)) = [1, 2]
   \<and> map deal_contact (deals_made (generate_deals [1, 2] [9] [(9, 1)] 2 sample_world))
       = [Some 9, None]"
  by code_simp

subsection \<open>Claims on the generators\<close>

text \<open>
  C3, as stated: the contact of a deal, when there is one, is drawn from the contact
  pool. \<^verbatim>\<open>generate_deals\<close> never reads \<^verbatim>\<open>contact_ids\<close>; it draws the contact from the keys
  of \<^verbatim>\<open>contact_company_map\<close>. With the pool \<^verbatim>\<open>[7]\<close> and the map \<^verbatim>\<open>{9: 1}\<close> the deal gets
  contact 9.
\<close>

theorem C3_counterexample:
  "map deal_contact (deals_made (generate_deals [1] [7] [(9, 1)] 1 sample_world)) = [Some 9]
   \<and> 9 \<notin> set [7 :: nat]"
  by code_simp

text \<open>
  C3, amended: from a non-empty company pool \<^verbatim>\<open>generate_deals\<close> returns, having added
  \<^verbatim>\<open>count\<close> deals. The company of each is in the company pool. Its contact, when not
  null, is a key of the contact-to-company map for which the map records the deal's
  company, so it is in the contact pool whenever every key of the map is; and the
  contact is null exactly when the map records no contact for the deal's company.
\<close>

theorem C3_deal_references:
  assumes "company_ids \<noteq> []"
  shows "\<exists>ids w' rows.
           generate_deals company_ids contact_ids contact_company_map count w = Some (Inr (ids, w'))
         \<and> deals_tbl (conn w') = deals_tbl (conn w) @ rows \<and> length rows = nat count
         \<and> (\<forall>d\<in>set rows. deal_company d \<in> set company_ids
               \<and> (case deal_contact d of
                     None \<Rightarrow> deal_company d \<notin> snd ` set contact_company_map
                   | Some c \<Rightarrow>
                       (c, deal_company d) \<in> set contact_company_map
                     \<and> (distinct (map fst contact_company_map) \<longrightarrow>
                          map_of contact_company_map c = Some (deal_company d))
                     \<and> (fst ` set contact_company_map \<subseteq> set contact_ids \<longrightarrow>
                          c \<in> set contact_ids)))"
proof -
  from generate_deals_returns [OF assms] obtain ids w'
    where g: "generate_deals company_ids contact_ids contact_company_map count w
               = Some (Inr (ids, w'))" by blast
  from generate_deals_rows [OF g] obtain rows
    where rows: "deals_tbl (conn w') = deals_tbl (conn w) @ rows" "length rows = nat count"
      and ok: "\<forall>d\<in>set rows. deal_company d \<in> set company_ids
                 \<and> (case deal_contact d of
                       None \<Rightarrow> deal_company d \<notin> snd ` set contact_company_map
                     | Some c \<Rightarrow> (c, deal_company d) \<in> set contact_company_map)"
    by blast
  have "deal_company d \<in> set company_ids
      \<and> (case deal_contact d of
            None \<Rightarrow> deal_company d \<notin> snd ` set contact_company_map
          | Some c \<Rightarrow>
              (c, deal_company d) \<in> set contact_company_map
            \<and> (distinct (map fst contact_company_map) \<longrightarrow>
                 map_of contact_company_map c = Some (deal_company d))
            \<and> (fst ` set contact_company_map \<subseteq> set contact_ids \<longrightarrow>
                 c \<in> set contact_ids))"
    if "d \<in> set rows" for d
  proof -
    from ok that have o: "deal_company d \<in> set company_ids
        \<and> (case deal_contact d of
              None \<Rightarrow> deal_company d \<notin> snd ` set contact_company_map
            | Some c \<Rightarrow> (c, deal_company d) \<in> set contact_company_map)" by blast
    show ?thesis
    proof (cases "deal_contact d")
      case None
      then show ?thesis using o by simp
    next
      case (Some c)
      then have m: "(c, deal_company d) \<in> set contact_company_map" using o by simp
      then have "c \<in> fst ` set contact_company_map" by force
      moreover have "map_of contact_company_map c = Some (deal_company d)"
        if "distinct (map fst contact_company_map)" using that m by simp
      ultimately show ?thesis using Some o m by auto
    qed
  qed
  then show ?thesis using g rows by blast
qed

theorem C3_deal_references_witness:
  "[1, 2] \<noteq> ([] :: nat list)
   \<and> map deal_company (deals_made (generate_deals [1, 2] [9] [(9, 1)] 2 sample_world)) = [1, 2]
   \<and> map deal_contact (deals_made (generate_deals [1, 2] [9] [(9, 1)] 2 sample_world))
       = [Some 9, None]
   \<and> (\<exists>ids w' rows.
           generate_deals [1, 2] [9] [(9, 1)] 2 sample_world = Some (Inr (ids, w'))
         \<and> deals_tbl (conn w') = deals_tbl (conn sample_world) @ rows \<and> length rows = nat 2
         \<and> (\<forall>d\<in>set rows. deal_company d \<in> set [1, 2]
               \<and> (case deal_contact d of
                     None \<Rightarrow> deal_company d \<notin> snd ` set [(9 :: nat, 1 :: nat)]
                   | Some c \<Rightarrow>
                       (c, deal_company d) \<in> set [(9, 1)]
                     \<and> (distinct (map fst [(9 :: nat, 1 :: nat)]) \<longrightarrow>
                          map_of [(9, 1)] c = Some (deal_company d))
                     \<and> (fst ` set [(9 :: nat, 1 :: nat)] \<subseteq> set [9] \<longrightarrow> c \<in> set [9]))))"
proof -
  have h: "[1, 2] \<noteq> ([] :: nat list)" by simp
  note t = C3_deal_references [OF h, of "[9]" "[(9, 1)]" 2 sample_world]
  show ?thesis
    by (intro conjI h sample_deals [THEN conjunct1] sample_deals [THEN conjunct2] t)
qed

text \<open>
  C4. In one call, no two contacts that \<^verbatim>\<open>generate_contacts\<close> inserts have the same
  email address, no two products that \<^verbatim>\<open>generate_products\<close> inserts have the same SKU, and
  no two rows that \<^verbatim>\<open>generate_deal_products\<close> inserts have the same pair of deal and
  product; each call that returns has inserted \<^verbatim>\<open>count\<close> rows.
\<close>

theorem C4_uniqueness:
  "(generate_contacts company_ids count w = Some (Inr (rc, wc)) \<longrightarrow>
      (\<exists>rows. contacts_tbl (conn wc) = contacts_tbl (conn w) @ rows
         \<and> length rows = nat count \<and> distinct (map contact_email rows)))
   \<and> (generate_products count w = Some (Inr (rp, wp)) \<longrightarrow>
      (\<exists>rows. products_tbl (conn wp) = products_tbl (conn w) @ rows
         \<and> length rows = nat count \<and> distinct (map product_sku rows)))
   \<and> (generate_deal_products deal_ids product_data count w = Some (Inr (rd, wd)) \<longrightarrow>
      (\<exists>rows. deal_products_tbl (conn wd) = deal_products_tbl (conn w) @ rows
         \<and> length rows = nat count
         \<and> distinct (map (\<lambda>r. (dp_deal r, dp_product r)) rows)))"
proof (intro conjI impI)
  assume "generate_contacts company_ids count w = Some (Inr (rc, wc))"
  then show "\<exists>rows. contacts_tbl (conn wc) = contacts_tbl (conn w) @ rows
         \<and> length rows = nat count \<and> distinct (map contact_email rows)"
    by (rule generate_contacts_rows)
next
  assume "generate_products count w = Some (Inr (rp, wp))"
  then show "\<exists>rows. products_tbl (conn wp) = products_tbl (conn w) @ rows
         \<and> length rows = nat count \<and> distinct (map product_sku rows)"
    by (rule generate_products_rows)
next
  assume "generate_deal_products deal_ids product_data count w = Some (Inr (rd, wd))"
  from generate_deal_products_rows [OF this] obtain rows
    where "deal_products_tbl (conn wd) = deal_products_tbl (conn w) @ rows"
      "length rows = nat count" "distinct (map dp_pair rows)" by blast
  moreover have "dp_pair = (\<lambda>r. (dp_deal r, dp_product r))" by (auto simp: dp_pair_def)
  ultimately show "\<exists>rows. deal_products_tbl (conn wd) = deal_products_tbl (conn w) @ rows
         \<and> length rows = nat count
         \<and> distinct (map (\<lambda>r. (dp_deal r, dp_product r)) rows)" by auto
qed

lemma returned_contacts:
  "final_conn (generate_contacts [5, 6] 3 sample_world) \<noteq> None"
  by code_simp

lemma returned_products: "final_conn (generate_products 2 sample_world) \<noteq> None"
  by code_simp

lemma returned_pairs:
  "final_conn (generate_deal_products [1, 2] [(9, 1), (8, 5)] 3 sample_world) \<noteq> None"
  by code_simp

theorem C4_uniqueness_witness:
  "(\<exists>rc wc rows. generate_contacts [5, 6] 3 sample_world = Some (Inr (rc, wc))
        \<and> contacts_tbl (conn wc) = contacts_tbl (conn sample_world) @ rows
        \<and> length rows = nat 3 \<and> distinct (map contact_email rows))
   \<and> map contact_email (contacts_made (generate_contacts [5, 6] 3 sample_world))
       = [''ann.ann@Ann'', ''ann.ann1@Ann'', ''ann.ann2@Ann'']
   \<and> (\<exists>rp wp rows. generate_products 2 sample_world = Some (Inr (rp, wp))
        \<and> products_tbl (conn wp) = products_tbl (conn sample_world) @ rows
        \<and> length rows = nat 2 \<and> distinct (map product_sku rows))
   \<and> (\<exists>rd wd rows.
          generate_deal_products [1, 2] [(9, 1), (8, 5)] 3 sample_world = Some (Inr (rd, wd))
        \<and> deal_products_tbl (conn wd) = deal_products_tbl (conn sample_world) @ rows
        \<and> length rows = nat 3
        \<and> distinct (map (\<lambda>r. (dp_deal r, dp_product r)) rows))"
proof -
  obtain rc wc where c: "generate_contacts [5, 6] 3 sample_world = Some (Inr (rc, wc))"
    using returned_contacts final_conn_Some [of "generate_contacts [5, 6] 3 sample_world"]
    by (cases "final_conn (generate_contacts [5, 6] 3 sample_world)") auto
  obtain rp wp where p: "generate_products 2 sample_world = Some (Inr (rp, wp))"
    using returned_products final_conn_Some [of "generate_products 2 sample_world"]
    by (cases "final_conn (generate_products 2 sample_world)") auto
  obtain rd wd
    where d: "generate_deal_products [1, 2] [(9, 1), (8, 5)] 3 sample_world = Some (Inr (rd, wd))"
    using returned_pairs
      final_conn_Some [of "generate_deal_products [1, 2] [(9, 1), (8, 5)] 3 sample_world"]
    by (cases "final_conn (generate_deal_products [1, 2] [(9, 1), (8, 5)] 3 sample_world)") auto
  note t1 = C4_uniqueness [of "[5, 6]" 3 sample_world rc wc rp wp "[1, 2]" "[(9, 1), (8, 5)]" rd wd]
  note t2 = C4_uniqueness [of "[5, 6]" 2 sample_world rc wc rp wp "[1, 2]" "[(9, 1), (8, 5)]" rd wd]
  from t1 [THEN conjunct1, rule_format, OF c] obtain rows1
    where 1: "contacts_tbl (conn wc) = contacts_tbl (conn sample_world) @ rows1
         \<and> length rows1 = nat 3 \<and> distinct (map contact_email rows1)" ..
  from t2 [THEN conjunct2, THEN conjunct1, rule_format, OF p] obtain rows2
    where 2: "products_tbl (conn wp) = products_tbl (conn sample_world) @ rows2
         \<and> length rows2 = nat 2 \<and> distinct (map product_sku rows2)" ..
  from t1 [THEN conjunct2, THEN conjunct2, rule_format, OF d] obtain rows3
    where 3: "deal_products_tbl (conn wd) = deal_products_tbl (conn sample_world) @ rows3
         \<and> length rows3 = nat 3
         \<and> distinct (map (\<lambda>r. (dp_deal r, dp_product r)) rows3)" ..
  have e1: "\<exists>rc wc rows. generate_contacts [5, 6] 3 sample_world = Some (Inr (rc, wc))
        \<and> contacts_tbl (conn wc) = contacts_tbl (conn sample_world) @ rows
        \<and> length rows = nat 3 \<and> distinct (map contact_email rows)"
    using c 1 by (intro exI [of _ rc] exI [of _ wc] exI [of _ rows1] conjI) simp_all
  have e2: "\<exists>rp wp rows. generate_products 2 sample_world = Some (Inr (rp, wp))
        \<and> products_tbl (conn wp) = products_tbl (conn sample_world) @ rows
        \<and> length rows = nat 2 \<and> distinct (map product_sku rows)"
    using p 2 by (intro exI [of _ rp] exI [of _ wp] exI [of _ rows2] conjI) simp_all
  have e3: "\<exists>rd wd rows.
          generate_deal_products [1, 2] [(9, 1), (8, 5)] 3 sample_world = Some (Inr (rd, wd))
        \<and> deal_products_tbl (conn wd) = deal_products_tbl (conn sample_world) @ rows
        \<and> length rows = nat 3
        \<and> distinct (map (\<lambda>r. (dp_deal r, dp_product r)) rows)"
    using d 3 by (intro exI [of _ rd] exI [of _ wd] exI [of _ rows3] conjI) simp_all
  show ?thesis by (intro conjI e1 e2 e3 sample_contacts)
qed

section \<open>The remaining generators\<close>

text \<open>
  Modelled from the spec: \<^verbatim>\<open>conn.execute(statement, records)\<close> with a list of records is
  the collaborator's \<^verbatim>\<open>insert_records(table, records)\<close>: it appends the records to the
  table, and an empty list appends nothing. \<^verbatim>\<open>generate_deal_products\<close> above inserts its
  rows in this way, and so do the three generators below.

  \<^verbatim>\<open>random.random() > 0.3\<close> compares a float; here the draw \<open>r\<close> is above when
  \<open>3 \<le> r mod 10\<close>. The weighted \<^verbatim>\<open>random.choices(TASK_STATUSES, ...)[0]\<close> is a \<open>pick\<close>:
  every status has a positive weight.
\<close>

subsection \<open>\<^verbatim>\<open>generate_activities\<close>\<close>

definition timed_activity :: "string \<Rightarrow> bool" where
  "timed_activity chosen_type =
     (chosen_type = ''call'' \<or> chosen_type = ''meeting'' \<or> chosen_type = ''demo'')"

definition draw_duration :: "string \<Rightarrow> world \<Rightarrow> int option \<times> world" where
  "draw_duration chosen_type w =
     (if timed_activity chosen_type
      then (case randint 5 120 w of (minutes, w') \<Rightarrow> (Some minutes, w'))
      else (None, w))"

definition draw_notes :: "world \<Rightarrow> world" where
  "draw_notes w = (case rand_next w of (r, w') \<Rightarrow> if 3 \<le> r mod 10 then discard_fake 1 w' else w')"

definition activity_body :: "nat list \<Rightarrow> nat \<Rightarrow> activity_row list \<Rightarrow> world
    \<Rightarrow> (error + activity_row list \<times> world) option" where
  "activity_body contact_ids i rows w =
     (case random_choice contact_ids w of
        Inl e \<Rightarrow> Some (Inl e)
      | Inr (contact_id, w1) \<Rightarrow>
          (case pick ACTIVITY_TYPES w1 of (chosen_type, w2) \<Rightarrow>
           case draw_duration chosen_type (draw_notes (discard_rand 1 w2)) of
             (duration, w3) \<Rightarrow>
               Some (Inr (rows @ [\<lparr>activity_contact = contact_id,
                                   activity_type = chosen_type,
                                   activity_duration = duration\<rparr>],
                          discard_fake 1 w3))))"

definition generate_activities :: "nat list \<Rightarrow> int \<Rightarrow> world \<Rightarrow> (error + unit \<times> world) option" where
  "generate_activities contact_ids count w =
     (case for_loop (activity_body contact_ids) (py_range count) [] w of
        None \<Rightarrow> None
      | Some (Inl e) \<Rightarrow> Some (Inl e)
      | Some (Inr (rows, w')) \<Rightarrow>
          Some (Inr ((), w'\<lparr>conn := (conn w')\<lparr>activities_tbl :=
                              activities_tbl (conn w') @ rows\<rparr>\<rparr>)))"

subsection \<open>\<^verbatim>\<open>generate_notes\<close>\<close>

definition note_body :: "nat list \<Rightarrow> nat \<Rightarrow> note_row list \<Rightarrow> world
    \<Rightarrow> (error + note_row list \<times> world) option" where
  "note_body contact_ids i rows w =
     (case random_choice contact_ids w of
        Inl e \<Rightarrow> Some (Inl e)
      | Inr (contact_id, w1) \<Rightarrow>
          Some (Inr (rows @ [\<lparr>note_contact = contact_id\<rparr>],
                     discard_fake 7 (discard_rand 8 w1))))"

definition generate_notes :: "nat list \<Rightarrow> int \<Rightarrow> world \<Rightarrow> (error + unit \<times> world) option" where
  "generate_notes contact_ids count w =
     (case for_loop (note_body contact_ids) (py_range count) [] w of
        None \<Rightarrow> None
      | Some (Inl e) \<Rightarrow> Some (Inl e)
      | Some (Inr (rows, w')) \<Rightarrow>
          Some (Inr ((), w'\<lparr>conn := (conn w')\<lparr>notes_tbl := notes_tbl (conn w') @ rows\<rparr>\<rparr>)))"

subsection \<open>\<^verbatim>\<open>generate_tasks\<close>\<close>

definition draw_completed :: "string \<Rightarrow> world \<Rightarrow> string option \<times> world" where
  "draw_completed status w =
     (if status = ''completed''
      then (case fake_next w of (day, w') \<Rightarrow> (Some day, w'))
      else (None, w))"

definition task_body :: "nat list \<Rightarrow> nat \<Rightarrow> task_row list \<Rightarrow> world
    \<Rightarrow> (error + task_row list \<times> world) option" where
  "task_body deal_ids i rows w =
     (case random_choice deal_ids w of
        Inl e \<Rightarrow> Some (Inl e)
      | Inr (deal_id, w1) \<Rightarrow>
          (case pick TASK_STATUSES (discard_rand 1 w1) of (status, w2) \<Rightarrow>
           case draw_completed status (discard_fake 1 w2) of (completed, w3) \<Rightarrow>
             Some (Inr (rows @ [\<lparr>task_deal = deal_id, task_status = status,
                                 task_completed_at = completed\<rparr>],
                        discard_fake 1 (discard_rand 1 w3)))))"

definition generate_tasks :: "nat list \<Rightarrow> int \<Rightarrow> world \<Rightarrow> (error + unit \<times> world) option" where
  "generate_tasks deal_ids count w =
     (case for_loop (task_body deal_ids) (py_range count) [] w of
        None \<Rightarrow> None
      | Some (Inl e) \<Rightarrow> Some (Inl e)
      | Some (Inr (rows, w')) \<Rightarrow>
          Some (Inr ((), w'\<lparr>conn := (conn w')\<lparr>tasks_tbl := tasks_tbl (conn w') @ rows\<rparr>\<rparr>)))"

section \<open>Execution driver\<close>

text \<open>
  The local variables of \<^verbatim>\<open>main\<close> inside \<^verbatim>\<open>with engine.connect() as conn\<close>: the five
  identifier pools, the sources and the connection. \<open>generated\<close> lists the tables whose
  generator has been called, in order; it is the trace of the lines
  \<^verbatim>\<open>Generating {count} ...\<close> that each generator prints first.
\<close>

record run_state =
  held_company_ids :: "nat list"
  held_contact_ids :: "nat list"
  held_contact_company_map :: "(nat \<times> nat) list"
  held_product_data :: "(nat \<times> int) list"
  held_deal_ids :: "nat list"
  generated :: "string list"
  world_now :: world

text \<open>
  The guard that precedes a generator call, up to its \<^verbatim>\<open>sys.exit(1)\<close>:
  \<^verbatim>\<open>if not ids: ids = fetch_existing_ids(conn, table); if not ids: exit\<close>.
\<close>

definition require_ids :: "string \<Rightarrow> nat list \<Rightarrow> database \<Rightarrow> error + nat list" where
  "require_ids table ids d =
     (if ids \<noteq> [] then Inr ids
      else if fetch_existing_ids d table = [] then Inl (MissingPrerequisiteError table)
      else Inr (fetch_existing_ids d table))"

text \<open>
  What a generator call leaves: \<open>None\<close> when it never returns, the error with the state
  before the call when it raises, the updated state otherwise.
\<close>

definition after_call :: "run_state \<Rightarrow> string \<Rightarrow> (error + 'a \<times> world) option
    \<Rightarrow> ('a \<Rightarrow> run_state \<Rightarrow> run_state) \<Rightarrow> (error \<times> run_state + run_state) option" where
  "after_call s table r keep =
     (case r of
        None \<Rightarrow> None
      | Some (Inl e) \<Rightarrow> Some (Inl (e, s\<lparr>generated := generated s @ [table]\<rparr>))
      | Some (Inr (x, w')) \<Rightarrow>
          Some (Inr (keep x (s\<lparr>generated := generated s @ [table], world_now := w'\<rparr>))))"

text \<open>
  The body of \<^verbatim>\<open>for table in tables_to_generate\<close>, one branch per table in the order of
  the \<^verbatim>\<open>if\<close>/\<^verbatim>\<open>elif\<close> chain. A failure carries the state in which the run stops.
\<close>

definition run_table :: "string \<Rightarrow> int \<Rightarrow> run_state \<Rightarrow> (error \<times> run_state + run_state) option" where
  "run_table table count s =
    (let w = world_now s in
     if table = ''companies'' then
       after_call s table (generate_companies count w) (\<lambda>ids s'. s'\<lparr>held_company_ids := ids\<rparr>)
     else if table = ''contacts'' then
       (case require_ids ''companies'' (held_company_ids s) (conn w) of
          Inl e \<Rightarrow> Some (Inl (e, s))
        | Inr company_ids \<Rightarrow>
            after_call (s\<lparr>held_company_ids := company_ids\<rparr>) table
              (generate_contacts company_ids count w)
              (\<lambda>(ids, m) s'. s'\<lparr>held_contact_ids := ids, held_contact_company_map := m\<rparr>))
     else if table = ''products'' then
       after_call s table (generate_products count w) (\<lambda>pd s'. s'\<lparr>held_product_data := pd\<rparr>)
     else if table = ''deals'' then
       (case require_ids ''companies'' (held_company_ids s) (conn w) of
          Inl e \<Rightarrow> Some (Inl (e, s))
        | Inr company_ids \<Rightarrow>
            let s1 = s\<lparr>held_company_ids := company_ids\<rparr>;
                s2 = (if held_contact_ids s1 = []
                      then s1\<lparr>held_contact_ids := fetch_existing_ids (conn w) ''contacts'',
                              held_contact_company_map := fetch_contact_company_map (conn w)\<rparr>
                      else s1)
            in if held_contact_ids s2 = [] then Some (Inl (MissingPrerequisiteError ''contacts'', s2))
               else after_call s2 table
                      (generate_deals company_ids (held_contact_ids s2)
                         (held_contact_company_map s2) count w)
                      (\<lambda>ids s'. s'\<lparr>held_deal_ids := ids\<rparr>))
     else if table = ''deal_products'' then
       (case require_ids ''deals'' (held_deal_ids s) (conn w) of
          Inl e \<Rightarrow> Some (Inl (e, s))
        | Inr deal_ids \<Rightarrow>
            let s1 = s\<lparr>held_deal_ids := deal_ids\<rparr>;
                s2 = (if held_product_data s1 = []
                      then s1\<lparr>held_product_data := fetch_product_prices (conn w)\<rparr>
                      else s1)
            in if held_product_data s2 = [] then Some (Inl (MissingPrerequisiteError ''products'', s2))
               else after_call s2 table
                      (generate_deal_products deal_ids (held_product_data s2) count w)
                      (\<lambda>u s'. s'))
     else if table = ''activities'' then
       (case require_ids ''contacts'' (held_contact_ids s) (conn w) of
          Inl e \<Rightarrow> Some (Inl (e, s))
        | Inr contact_ids \<Rightarrow>
            after_call (s\<lparr>held_contact_ids := contact_ids\<rparr>) table
              (generate_activities contact_ids count w) (\<lambda>u s'. s'))
     else if table = ''notes'' then
       (case require_ids ''contacts'' (held_contact_ids s) (conn w) of
          Inl e \<Rightarrow> Some (Inl (e, s))
        | Inr contact_ids \<Rightarrow>
            after_call (s\<lparr>held_contact_ids := contact_ids\<rparr>) table
              (generate_notes contact_ids count w) (\<lambda>u s'. s'))
     else if table = ''tasks'' then
       (case require_ids ''deals'' (held_deal_ids s) (conn w) of
          Inl e \<Rightarrow> Some (Inl (e, s))
        | Inr deal_ids \<Rightarrow>
            after_call (s\<lparr>held_deal_ids := deal_ids\<rparr>) table
              (generate_tasks deal_ids count w) (\<lambda>u s'. s'))
     else Some (Inr s))"

text \<open>
  \<^verbatim>\<open>final_counts[table]\<close>: the count of the specification, else \<^verbatim>\<open>args.count\<close> when it
  is given and not zero, else the default.
\<close>

definition final_count :: "(string \<times> int) list \<Rightarrow> int option \<Rightarrow> string \<Rightarrow> int" where
  "final_count table_counts count_arg table =
     (case map_of table_counts table of
        Some n \<Rightarrow> n
      | None \<Rightarrow>
          (case count_arg of
             Some n \<Rightarrow> if n \<noteq> 0 then n else dict_get DEFAULT_COUNTS table 100
           | None \<Rightarrow> dict_get DEFAULT_COUNTS table 100))"

fun run_tables :: "string list \<Rightarrow> (string \<times> int) list \<Rightarrow> int option \<Rightarrow> run_state
    \<Rightarrow> (error \<times> run_state + run_state) option" where
  "run_tables [] table_counts count_arg s = Some (Inr s)"
| "run_tables (table # tables) table_counts count_arg s =
     (case run_table table (final_count table_counts count_arg table) s of
        None \<Rightarrow> None
      | Some (Inl failure) \<Rightarrow> Some (Inl failure)
      | Some (Inr s') \<Rightarrow> run_tables tables table_counts count_arg s')"

text \<open>
  \<^verbatim>\<open>main\<close>, from the parsed arguments \<^verbatim>\<open>--tables\<close>, \<^verbatim>\<open>--count\<close> and \<^verbatim>\<open>--no-deps\<close>. The
  connection starts on the persisted store. \<^verbatim>\<open>conn.commit()\<close> is the last statement of
  the \<^verbatim>\<open>with\<close> block: a run that reaches it persists what the connection sees, and a run
  that exits before leaves the store as it was. The result is the outcome and the
  persisted store.
\<close>

record args =
  tables_arg :: string
  count_arg :: "int option"
  no_deps :: bool

definition start_state :: "(nat \<Rightarrow> nat) \<Rightarrow> (nat \<Rightarrow> string) \<Rightarrow> database \<Rightarrow> run_state" where
  "start_state rnd fk store =
     \<lparr>held_company_ids = [], held_contact_ids = [], held_contact_company_map = [],
      held_product_data = [], held_deal_ids = [], generated = [],
      world_now = \<lparr>rand_out = rnd, rand_pos = 0, fake_out = fk, fake_pos = 0, conn = store\<rparr>\<rparr>"

definition main :: "args \<Rightarrow> (nat \<Rightarrow> nat) \<Rightarrow> (nat \<Rightarrow> string) \<Rightarrow> database
    \<Rightarrow> ((error + unit) \<times> database) option" where
  "main a rnd fk store =
     (case parse_table_spec (tables_arg a) (count_arg a) of
        Inl e \<Rightarrow> Some (Inl e, store)
      | Inr table_counts \<Rightarrow>
          (case resolve_dependencies (map fst table_counts) (\<not> no_deps a) of
             None \<Rightarrow> None
           | Some tables_to_generate \<Rightarrow>
               (case run_tables tables_to_generate table_counts (count_arg a)
                       (start_state rnd fk store) of
                  None \<Rightarrow> None
                | Some (Inl (e, s)) \<Rightarrow> Some (Inl e, store)
                | Some (Inr s) \<Rightarrow> Some (Inr (), conn (world_now s)))))"

section \<open>What a generator adds to the identifiers the connection sees\<close>

text \<open>
  \<open>adds_ids X ids w w'\<close>: from \<open>w\<close> to \<open>w'\<close> the identifiers of table \<open>X\<close> grew by \<open>ids\<close>
  and those of every other table are the same.
\<close>

definition adds_ids :: "string \<Rightarrow> nat list \<Rightarrow> world \<Rightarrow> world \<Rightarrow> bool" where
  "adds_ids X ids w w' =
     (\<forall>T. fetch_existing_ids (conn w') T
            = fetch_existing_ids (conn w) T @ (if T = X then ids else []))"

lemma adds_ids_refl: "adds_ids X [] w w"
  by (simp add: adds_ids_def)

lemma adds_ids_trans:
  "adds_ids X xs w w1 \<Longrightarrow> adds_ids X ys w1 w2 \<Longrightarrow> adds_ids X (xs @ ys) w w2"
  by (simp add: adds_ids_def)

lemma adds_ids_conn: "conn w1 = conn w \<Longrightarrow> adds_ids X ids w1 w' \<Longrightarrow> adds_ids X ids w w'"
  by (simp add: adds_ids_def)

lemma company_body_ids:
  assumes "company_body i ids w = Some (Inr (ids', w'))"
  shows "\<exists>n. ids' = ids @ [n] \<and> adds_ids ''companies'' [n] w w'"
  using assms
  by (auto simp: company_body_def next_id_def Let_def adds_ids_def fetch_existing_ids_def
        fake_next_def discard_fake_def discard_rand_def split: prod.splits)

lemma generate_companies_ids:
  assumes "generate_companies count w = Some (Inr (ids, w'))"
  shows "adds_ids ''companies'' ids w w'"
proof -
  have "for_loop company_body (py_range count) [] w = Some (Inr (ids, w'))"
    using assms by (simp add: generate_companies_def)
  then show ?thesis
  proof (rule for_loop_invariant [where I = "\<lambda>st w1. adds_ids ''companies'' st w w1"])
    show "adds_ids ''companies'' [] w w" by (rule adds_ids_refl)
  next
    fix x st w1 st1 w2
    assume i: "adds_ids ''companies'' st w w1" and b: "company_body x st w1 = Some (Inr (st1, w2))"
    from company_body_ids [OF b] obtain n where "st1 = st @ [n]" "adds_ids ''companies'' [n] w1 w2"
      by blast
    then show "adds_ids ''companies'' st1 w w2" using adds_ids_trans [OF i] by simp
  qed
qed

lemma contact_body_ids:
  assumes "contact_body company_ids i (ids, m, used) w = Some (Inr ((ids', m', used'), w'))"
  shows "\<exists>n. ids' = ids @ [n] \<and> adds_ids ''contacts'' [n] w w'"
proof -
  from assms have ne: "company_ids \<noteq> []"
    by (auto simp: contact_body_def random_choice_def)
  obtain company_id w1 where c: "random_choice company_ids w = Inr (company_id, w1)"
    using random_choice_nonempty [OF ne] by blast
  have c1: "conn w1 = conn w" using random_choice_Inr [OF c] by simp
  obtain first_name w2 where f1: "fake_next (discard_rand 2 w1) = (first_name, w2)"
    by (cases "fake_next (discard_rand 2 w1)")
  obtain last_name w3 where f2: "fake_next w2 = (last_name, w3)" by (cases "fake_next w2")
  obtain domain w4 where f3: "fake_next w3 = (domain, w4)" by (cases "fake_next w3")
  have c4: "conn w4 = conn w"
    using fake_next_conn [OF f1] fake_next_conn [OF f2] fake_next_conn [OF f3] c1 by simp
  let ?names = "py_lower first_name @ ''.'' @ py_lower last_name"
  from assms c f1 f2 f3 obtain email w5
    where e: "email_loop ?names used (?names @ ''@'' @ domain) 1 w4 = Some (email, w5)"
    by (auto simp: contact_body_def Let_def split: option.splits)
  have c5: "conn w5 = conn w" using email_loop_fresh [OF e] c4 by simp
  from assms c f1 f2 f3 e c5 show ?thesis
    by (auto simp: contact_body_def Let_def next_id_def adds_ids_def fetch_existing_ids_def
          discard_fake_def)
qed

lemma generate_contacts_ids:
  assumes "generate_contacts company_ids count w = Some (Inr ((ids, m), w'))"
  shows "adds_ids ''contacts'' ids w w'"
proof -
  from assms obtain used
    where f: "for_loop (contact_body company_ids) (py_range count) ([], [], {}) w
                = Some (Inr ((ids, m, used), w'))"
    by (auto simp: generate_contacts_def split: option.splits sum.splits)
  have "adds_ids ''contacts'' (fst (ids, m, used)) w w'"
  proof (rule for_loop_invariant [OF f, where I = "\<lambda>st w1. adds_ids ''contacts'' (fst st) w w1"])
    show "adds_ids ''contacts'' (fst ([], [], {})) w w" by (simp add: adds_ids_refl)
  next
    fix x st w1 st1 w2
    assume i: "adds_ids ''contacts'' (fst st) w w1"
      and b: "contact_body company_ids x st w1 = Some (Inr (st1, w2))"
    obtain a m1 u where st: "st = (a, m1, u)" by (cases st)
    obtain a' m1' u' where st1: "st1 = (a', m1', u')" by (cases st1)
    from contact_body_ids [OF b [unfolded st st1]] obtain n
      where "a' = a @ [n]" "adds_ids ''contacts'' [n] w1 w2" by blast
    then show "adds_ids ''contacts'' (fst st1) w w2"
      using adds_ids_trans [OF i] st st1 by simp
  qed
  then show ?thesis by simp
qed

lemma update_not_Nil: "AList.update k v m \<noteq> []"
  by (cases m) auto

lemma product_body_ids:
  assumes "product_body i (pd, used) w = Some (Inr ((pd', used'), w'))"
  shows "pd' \<noteq> [] \<and> (\<exists>n. adds_ids ''products'' [n] w w')"
proof -
  obtain prefix w1 where p1: "pick product_prefixes w = (prefix, w1)"
    by (cases "pick product_prefixes w")
  obtain prod_type w2 where p2: "pick product_types w1 = (prod_type, w2)"
    by (cases "pick product_types w1")
  obtain category w3 where p3: "pick PRODUCT_CATEGORIES w2 = (category, w3)"
    by (cases "pick PRODUCT_CATEGORIES w2")
  obtain n w4 where r: "randint 1000 9999 w3 = (n, w4)" by (cases "randint 1000 9999 w3")
  have c4: "conn w4 = conn w"
    using pick_conn [OF p1] pick_conn [OF p2] pick_conn [OF p3] randint_conn [OF r] by simp
  let ?pre = "py_upper (take 3 category)"
  from assms p1 p2 p3 r obtain sku w5
    where s: "sku_loop ?pre used (?pre @ ''-'' @ show_nat (nat n)) w4 = Some (sku, w5)"
    by (auto simp: product_body_def Let_def split: option.splits)
  obtain units w6 where r1: "randint 99 99999 w5 = (units, w6)" by (cases "randint 99 99999 w5")
  obtain cents w7 where r2: "randint 0 99 w6 = (cents, w7)" by (cases "randint 0 99 w6")
  have c7: "conn w7 = conn w"
    using sku_loop_fresh [OF s] randint_conn [OF r1] randint_conn [OF r2] c4 by simp
  from assms p1 p2 p3 r s r1 r2 c7 show ?thesis
    by (auto simp: product_body_def Let_def next_id_def adds_ids_def fetch_existing_ids_def
          discard_fake_def discard_rand_def update_not_Nil)
qed

lemma generate_products_ids:
  assumes "generate_products count w = Some (Inr (pd, w'))"
  shows "\<exists>ids. adds_ids ''products'' ids w w' \<and> (ids = [] \<longleftrightarrow> pd = [])"
proof -
  from assms obtain used
    where f: "for_loop product_body (py_range count) ([], {}) w = Some (Inr ((pd, used), w'))"
    by (auto simp: generate_products_def split: option.splits sum.splits)
  have "\<exists>ids. adds_ids ''products'' ids w w' \<and> (ids = [] \<longleftrightarrow> fst (pd, used) = [])"
  proof (rule for_loop_invariant [OF f, where I = "\<lambda>st w1.
            \<exists>ids. adds_ids ''products'' ids w w1 \<and> (ids = [] \<longleftrightarrow> fst st = [])"])
    show "\<exists>ids. adds_ids ''products'' ids w w \<and> (ids = [] \<longleftrightarrow> fst ([], {}) = [])"
      using adds_ids_refl by fastforce
  next
    fix x st w1 st1 w2
    assume i: "\<exists>ids. adds_ids ''products'' ids w w1 \<and> (ids = [] \<longleftrightarrow> fst st = [])"
      and b: "product_body x st w1 = Some (Inr (st1, w2))"
    obtain a u where st: "st = (a, u)" by (cases st)
    obtain a' u' where st1: "st1 = (a', u')" by (cases st1)
    from i obtain ids where ids: "adds_ids ''products'' ids w w1" by blast
    from product_body_ids [OF b [unfolded st st1]] obtain n
      where n: "a' \<noteq> []" "adds_ids ''products'' [n] w1 w2" by blast
    have "adds_ids ''products'' (ids @ [n]) w w2" using adds_ids_trans [OF ids n(2)] .
    moreover have "ids @ [n] = [] \<longleftrightarrow> fst st1 = []" using n(1) st1 by simp
    ultimately show "\<exists>ids. adds_ids ''products'' ids w w2 \<and> (ids = [] \<longleftrightarrow> fst st1 = [])"
      by blast
  qed
  then show ?thesis by simp
qed

lemma choose_contact_conn: "choose_contact xs w = (c, w') \<Longrightarrow> conn w' = conn w"
  by (auto simp: choose_contact_def dest: pick_conn split: if_splits prod.splits)

lemma stage_probability_conn: "stage_probability st w = (p, w') \<Longrightarrow> conn w' = conn w"
  by (auto simp: stage_probability_def randint_def rand_next_def split: if_splits prod.splits)

lemma close_dates_conn: "close_dates st w = (c, w') \<Longrightarrow> conn w' = conn w"
  by (auto simp: close_dates_def fake_next_def discard_fake_def split: if_splits prod.splits)

lemma deal_body_ids:
  assumes "deal_body company_ids contact_ids m i ids w = Some (Inr (ids', w'))"
  shows "\<exists>n. ids' = ids @ [n] \<and> adds_ids ''deals'' [n] w w'"
proof -
  from assms have ne: "company_ids \<noteq> []"
    by (auto simp: deal_body_def random_choice_def)
  obtain company_id w1 where c: "random_choice company_ids w = Inr (company_id, w1)"
    using random_choice_nonempty [OF ne] by blast
  let ?cc = "map fst (filter (\<lambda>(cid, comp_id). comp_id = company_id) m)"
  obtain contact_id w2 where k: "choose_contact ?cc w1 = (contact_id, w2)"
    by (cases "choose_contact ?cc w1")
  obtain stage w3 where s: "pick (map fst DEAL_STAGES) w2 = (stage, w3)"
    by (cases "pick (map fst DEAL_STAGES) w2")
  obtain probability w4 where p: "stage_probability stage w3 = (probability, w4)"
    by (cases "stage_probability stage w3")
  obtain amount w5 where a: "randint 1000 500000 w4 = (amount, w5)"
    by (cases "randint 1000 500000 w4")
  obtain actual_close w6 where d: "close_dates stage w5 = (actual_close, w6)"
    by (cases "close_dates stage w5")
  have c6: "conn w6 = conn w"
    using random_choice_Inr [OF c] choose_contact_conn [OF k] pick_conn [OF s]
      stage_probability_conn [OF p] randint_conn [OF a] close_dates_conn [OF d] by simp
  from assms c k s p a d c6 show ?thesis
    by (auto simp: deal_body_def Let_def next_id_def adds_ids_def fetch_existing_ids_def
          discard_fake_def discard_rand_def)
qed

lemma generate_deals_ids:
  assumes "generate_deals company_ids contact_ids m count w = Some (Inr (ids, w'))"
  shows "adds_ids ''deals'' ids w w'"
proof -
  have "for_loop (deal_body company_ids contact_ids m) (py_range count) [] w = Some (Inr (ids, w'))"
    using assms by (simp add: generate_deals_def)
  then show ?thesis
  proof (rule for_loop_invariant [where I = "\<lambda>st w1. adds_ids ''deals'' st w w1"])
    show "adds_ids ''deals'' [] w w" by (rule adds_ids_refl)
  next
    fix x st w1 st1 w2
    assume i: "adds_ids ''deals'' st w w1"
      and b: "deal_body company_ids contact_ids m x st w1 = Some (Inr (st1, w2))"
    from deal_body_ids [OF b] obtain n where "st1 = st @ [n]" "adds_ids ''deals'' [n] w1 w2"
      by blast
    then show "adds_ids ''deals'' st1 w w2" using adds_ids_trans [OF i] by simp
  qed
qed

lemma deal_products_loop_Inr:
  assumes "deal_products_loop deal_ids product_ids count rows used w = Some r"
  shows "case r of Inl e \<Rightarrow> deal_ids = [] \<or> product_ids = [] | Inr (rows', w') \<Rightarrow> conn w' = conn w"
proof (rule deal_products_loop.raw_induct [where P = "\<lambda>deal_ids product_ids count rows used w
      (r :: error + deal_product_row list \<times> world).
      case r of Inl e \<Rightarrow> deal_ids = [] \<or> product_ids = [] | Inr (rows', w') \<Rightarrow> conn w' = conn w",
      OF _ assms])
  fix loop :: "nat list \<Rightarrow> nat list \<Rightarrow> int \<Rightarrow> deal_product_row list \<Rightarrow> (nat \<times> nat) set \<Rightarrow> world
      \<Rightarrow> (error + deal_product_row list \<times> world) option"
  fix deal_ids product_ids count rows used w and r :: "error + deal_product_row list \<times> world"
  assume ih: "\<And>deal_ids product_ids count rows used w r.
      loop deal_ids product_ids count rows used w = Some r \<Longrightarrow>
      (case r of Inl e \<Rightarrow> deal_ids = [] \<or> product_ids = [] | Inr (rows', w') \<Rightarrow> conn w' = conn w)"
  assume step: "(if int (length rows) < count then
        (case random_choice deal_ids w of
           Inl e \<Rightarrow> Some (Inl e)
         | Inr (deal_id, w1) \<Rightarrow>
             (case random_choice product_ids w1 of
                Inl e \<Rightarrow> Some (Inl e)
              | Inr (product_id, w2) \<Rightarrow>
                  if (deal_id, product_id) \<in> used
                  then loop deal_ids product_ids count rows used w2
                  else (case randint 1 20 (discard_rand 1 w2) of (quantity, w3) \<Rightarrow>
                          loop deal_ids product_ids count
                            (rows @ [\<lparr>dp_deal = deal_id, dp_product = product_id,
                                       dp_quantity = quantity\<rparr>])
                            (insert (deal_id, product_id) used) (discard_rand 1 w3))))
      else Some (Inr (rows, w))) = Some r"
  show "case r of Inl e \<Rightarrow> deal_ids = [] \<or> product_ids = [] | Inr (rows', w') \<Rightarrow> conn w' = conn w"
  proof (cases "int (length rows) < count")
    case False
    then show ?thesis using step by auto
  next
    case True
    show ?thesis
    proof (cases "random_choice deal_ids w")
      case (Inl e)
      then have "deal_ids = []" by (auto simp: random_choice_def split: if_splits prod.splits)
      then show ?thesis using step True Inl by auto
    next
      case (Inr p)
      obtain deal_id w1 where p: "p = (deal_id, w1)" by (cases p)
      have c1: "conn w1 = conn w" using random_choice_Inr [of deal_ids w deal_id w1] Inr p by simp
      show ?thesis
      proof (cases "random_choice product_ids w1")
        case (Inl e)
        then have "product_ids = []" by (auto simp: random_choice_def split: if_splits prod.splits)
        then show ?thesis using step True Inr p Inl by auto
      next
        case q: (Inr q)
        obtain product_id w2 where q2: "q = (product_id, w2)" by (cases q)
        have c2: "conn w2 = conn w"
          using random_choice_Inr [of product_ids w1 product_id w2] q q2 c1 by simp
        show ?thesis
        proof (cases "(deal_id, product_id) \<in> used")
          case used: True
          then have "loop deal_ids product_ids count rows used w2 = Some r"
            using step True Inr p q q2 by simp
          from ih [OF this] show ?thesis using c2 by (auto split: sum.splits)
        next
          case fresh: False
          obtain quantity w3 where r3: "randint 1 20 (discard_rand 1 w2) = (quantity, w3)"
            by (cases "randint 1 20 (discard_rand 1 w2)")
          have c3: "conn (discard_rand 1 w3) = conn w" using randint_conn [OF r3] c2 by simp
          have "loop deal_ids product_ids count
                  (rows @ [\<lparr>dp_deal = deal_id, dp_product = product_id, dp_quantity = quantity\<rparr>])
                  (insert (deal_id, product_id) used) (discard_rand 1 w3) = Some r"
            using step True Inr p q q2 fresh r3 by simp
          from ih [OF this] show ?thesis using c3 by (auto split: sum.splits)
        qed
      qed
    qed
  qed
qed

lemma fetch_ids_deal_products [simp]:
  "fetch_existing_ids (d\<lparr>deal_products_tbl := x\<rparr>) T = fetch_existing_ids d T"
  by (simp add: fetch_existing_ids_def)

lemma fetch_ids_activities [simp]:
  "fetch_existing_ids (d\<lparr>activities_tbl := x\<rparr>) T = fetch_existing_ids d T"
  by (simp add: fetch_existing_ids_def)

lemma fetch_ids_notes [simp]:
  "fetch_existing_ids (d\<lparr>notes_tbl := x\<rparr>) T = fetch_existing_ids d T"
  by (simp add: fetch_existing_ids_def)

lemma fetch_ids_tasks [simp]:
  "fetch_existing_ids (d\<lparr>tasks_tbl := x\<rparr>) T = fetch_existing_ids d T"
  by (simp add: fetch_existing_ids_def)

lemma generate_deal_products_result:
  assumes "generate_deal_products deal_ids product_data count w = Some r"
  shows "case r of Inl e \<Rightarrow> deal_ids = [] \<or> product_data = []
         | Inr (u, w') \<Rightarrow> adds_ids X [] w w'"
proof -
  from assms obtain r0 where l: "deal_products_loop deal_ids (map fst product_data) count [] {} w = Some r0"
    by (auto simp: generate_deal_products_def split: option.splits)
  from deal_products_loop_Inr [OF l] assms l show ?thesis
    by (auto simp: generate_deal_products_def adds_ids_def split: sum.splits)
qed

lemma draw_duration_conn: "draw_duration t w = (d, w') \<Longrightarrow> conn w' = conn w"
  by (auto simp: draw_duration_def dest: randint_conn split: if_splits prod.splits)

lemma draw_notes_conn [simp]: "conn (draw_notes w) = conn w"
  by (auto simp: draw_notes_def rand_next_def discard_fake_def split: prod.splits)

lemma draw_completed_conn: "draw_completed st w = (c, w') \<Longrightarrow> conn w' = conn w"
  by (auto simp: draw_completed_def dest: fake_next_conn split: if_splits prod.splits)

lemma activity_body_result:
  "contact_ids \<noteq> [] \<Longrightarrow> \<exists>rows' w'. activity_body contact_ids i rows w = Some (Inr (rows', w'))
     \<and> conn w' = conn w"
proof -
  assume ne: "contact_ids \<noteq> []"
  obtain contact_id w1 where c: "random_choice contact_ids w = Inr (contact_id, w1)"
    using random_choice_nonempty [OF ne] by blast
  obtain t w2 where p: "pick ACTIVITY_TYPES w1 = (t, w2)" by (cases "pick ACTIVITY_TYPES w1")
  obtain d w3 where dd: "draw_duration t (draw_notes (discard_rand 1 w2)) = (d, w3)"
    by (cases "draw_duration t (draw_notes (discard_rand 1 w2))")
  have "conn w3 = conn w"
    using random_choice_Inr [OF c] pick_conn [OF p] draw_duration_conn [OF dd] by simp
  then show ?thesis using c p dd by (simp add: activity_body_def)
qed

lemma note_body_result:
  "contact_ids \<noteq> [] \<Longrightarrow> \<exists>rows' w'. note_body contact_ids i rows w = Some (Inr (rows', w'))
     \<and> conn w' = conn w"
proof -
  assume ne: "contact_ids \<noteq> []"
  obtain contact_id w1 where c: "random_choice contact_ids w = Inr (contact_id, w1)"
    using random_choice_nonempty [OF ne] by blast
  then show ?thesis using random_choice_Inr [OF c] by (simp add: note_body_def)
qed

lemma task_body_result:
  "deal_ids \<noteq> [] \<Longrightarrow> \<exists>rows' w'. task_body deal_ids i rows w = Some (Inr (rows', w'))
     \<and> conn w' = conn w"
proof -
  assume ne: "deal_ids \<noteq> []"
  obtain deal_id w1 where c: "random_choice deal_ids w = Inr (deal_id, w1)"
    using random_choice_nonempty [OF ne] by blast
  obtain st w2 where p: "pick TASK_STATUSES (discard_rand 1 w1) = (st, w2)"
    by (cases "pick TASK_STATUSES (discard_rand 1 w1)")
  obtain d w3 where dd: "draw_completed st (discard_fake 1 w2) = (d, w3)"
    by (cases "draw_completed st (discard_fake 1 w2)")
  have "conn w3 = conn w"
    using random_choice_Inr [OF c] pick_conn [OF p] draw_completed_conn [OF dd] by simp
  then show ?thesis using c p dd by (simp add: task_body_def)
qed

text \<open>A loop whose body always returns and leaves the connection alone does the same.\<close>

lemma for_loop_conn:
  assumes "\<And>x st w. \<exists>st' w'. body x st w = Some (Inr (st', w')) \<and> conn w' = conn w"
  shows "\<exists>st' w'. for_loop body xs st w = Some (Inr (st', w')) \<and> conn w' = conn w"
proof (induction xs arbitrary: st w)
  case Nil
  then show ?case by simp
next
  case (Cons x xs)
  from assms [of x st w] obtain st1 w1
    where b: "body x st w = Some (Inr (st1, w1))" "conn w1 = conn w" by blast
  from Cons.IH [of st1 w1] obtain st2 w2
    where "for_loop body xs st1 w1 = Some (Inr (st2, w2))" "conn w2 = conn w1" by blast
  then show ?case using b by simp
qed

lemma generate_activities_result:
  assumes "contact_ids \<noteq> []"
  shows "\<exists>w'. generate_activities contact_ids count w = Some (Inr ((), w')) \<and> adds_ids X [] w w'"
proof -
  from for_loop_conn [of "activity_body contact_ids" "py_range count" "[]" w]
    activity_body_result [OF assms]
  obtain rows w1 where "for_loop (activity_body contact_ids) (py_range count) [] w
      = Some (Inr (rows, w1))" "conn w1 = conn w" by blast
  then show ?thesis by (simp add: generate_activities_def adds_ids_def)
qed

lemma generate_notes_result:
  assumes "contact_ids \<noteq> []"
  shows "\<exists>w'. generate_notes contact_ids count w = Some (Inr ((), w')) \<and> adds_ids X [] w w'"
proof -
  from for_loop_conn [of "note_body contact_ids" "py_range count" "[]" w]
    note_body_result [OF assms]
  obtain rows w1 where "for_loop (note_body contact_ids) (py_range count) [] w
      = Some (Inr (rows, w1))" "conn w1 = conn w" by blast
  then show ?thesis by (simp add: generate_notes_def adds_ids_def)
qed

lemma generate_tasks_result:
  assumes "deal_ids \<noteq> []"
  shows "\<exists>w'. generate_tasks deal_ids count w = Some (Inr ((), w')) \<and> adds_ids X [] w w'"
proof -
  from for_loop_conn [of "task_body deal_ids" "py_range count" "[]" w]
    task_body_result [OF assms]
  obtain rows w1 where "for_loop (task_body deal_ids) (py_range count) [] w
      = Some (Inr (rows, w1))" "conn w1 = conn w" by blast
  then show ?thesis by (simp add: generate_tasks_def adds_ids_def)
qed

section \<open>Generators on a pool that is not empty\<close>

lemma generate_companies_returns:
  "\<exists>ids w'. generate_companies count w = Some (Inr (ids, w'))"
  unfolding generate_companies_def
  by (rule for_loop_returns)
     (simp add: company_body_def Let_def split: prod.splits)

lemma contact_body_no_error:
  "company_ids \<noteq> [] \<Longrightarrow> contact_body company_ids i st w \<noteq> Some (Inl e)"
  by (auto simp: contact_body_def random_choice_def Let_def
        split: prod.splits option.splits)

lemma generate_contacts_no_error:
  assumes "company_ids \<noteq> []"
  shows "generate_contacts company_ids count w \<noteq> Some (Inl e)"
proof
  assume "generate_contacts company_ids count w = Some (Inl e)"
  then have f: "for_loop (contact_body company_ids) (py_range count) ([], [], {}) w = Some (Inl e)"
    by (auto simp: generate_contacts_def split: option.splits sum.splits)
  show False
    by (rule for_loop_no_error [OF f, where I = "\<lambda>st w. True"])
       (simp_all add: contact_body_no_error [OF assms])
qed

lemma product_body_no_error: "product_body i st w \<noteq> Some (Inl e)"
  by (auto simp: product_body_def Let_def split: prod.splits option.splits)

lemma generate_products_no_error: "generate_products count w \<noteq> Some (Inl e)"
proof
  assume "generate_products count w = Some (Inl e)"
  then have f: "for_loop product_body (py_range count) ([], {}) w = Some (Inl e)"
    by (auto simp: generate_products_def split: option.splits sum.splits)
  show False
    by (rule for_loop_no_error [OF f, where I = "\<lambda>st w. True"])
       (simp_all add: product_body_no_error)
qed

section \<open>A count of zero\<close>









section \<open>One step of the driver\<close>

text \<open>
  \<open>pool s table\<close> is the identifier pool of \<open>table\<close> that the run holds in state \<open>s\<close> (for
  products, the keys of the price dictionary). A prerequisite is \<open>lacking\<close> when that
  pool is empty and the connection sees no row of the table.
\<close>

definition pool :: "run_state \<Rightarrow> string \<Rightarrow> nat list" where
  "pool s table =
     (if table = ''companies'' then held_company_ids s
      else if table = ''contacts'' then held_contact_ids s
      else if table = ''products'' then map fst (held_product_data s)
      else if table = ''deals'' then held_deal_ids s
      else [])"

definition lacking :: "run_state \<Rightarrow> string \<Rightarrow> bool" where
  "lacking s dep = (pool s dep = [] \<and> fetch_existing_ids (conn (world_now s)) dep = [])"

lemma foldl_update_Nil:
  "foldl (\<lambda>m p. AList.update (k p) (v p) m) m0 xs = [] \<longleftrightarrow> m0 = [] \<and> xs = []"
  by (induction xs arbitrary: m0) (auto simp: update_not_Nil)

lemma fetch_product_prices_Nil:
  "fetch_product_prices d = [] \<longleftrightarrow> fetch_existing_ids d ''products'' = []"
  by (simp add: fetch_product_prices_def fetch_existing_ids_def foldl_update_Nil)

lemma table_deps_simps:
  "table_deps ''companies'' = []"
  "table_deps ''contacts'' = [''companies'']"
  "table_deps ''products'' = []"
  "table_deps ''deals'' = [''companies'', ''contacts'']"
  "table_deps ''deal_products'' = [''deals'', ''products'']"
  "table_deps ''activities'' = [''contacts'']"
  "table_deps ''notes'' = [''contacts'']"
  "table_deps ''tasks'' = [''deals'']"
  by (simp_all add: table_deps_def dict_get_def TABLE_DEPENDENCIES_def)

lemma table_deps_unknown: "t \<notin> set ALL_TABLES \<Longrightarrow> table_deps t = []"
  by (simp add: table_deps_def dict_get_def TABLE_DEPENDENCIES_def ALL_TABLES_def)

lemma pool_simps:
  "pool s ''companies'' = held_company_ids s"
  "pool s ''contacts'' = held_contact_ids s"
  "pool s ''products'' = map fst (held_product_data s)"
  "pool s ''deals'' = held_deal_ids s"
  by (simp_all add: pool_def)

lemma require_ids_Inl:
  "require_ids table ids d = Inl e \<longleftrightarrow>
     e = MissingPrerequisiteError table \<and> ids = [] \<and> fetch_existing_ids d table = []"
  by (auto simp: require_ids_def)

lemma require_ids_Inr:
  "require_ids table ids d = Inr ids' \<Longrightarrow>
     ids' \<noteq> [] \<and> (ids' = ids \<or> ids = [] \<and> ids' = fetch_existing_ids d table)"
  by (auto simp: require_ids_def split: if_splits)

text \<open>The eight branches, one at a time.\<close>

lemma run_table_companies:
  "run_table ''companies'' count s =
     after_call s ''companies'' (generate_companies count (world_now s))
       (\<lambda>ids s'. s'\<lparr>held_company_ids := ids\<rparr>)"
  by (simp add: run_table_def Let_def)

lemma run_table_contacts:
  "run_table ''contacts'' count s =
     (case require_ids ''companies'' (held_company_ids s) (conn (world_now s)) of
        Inl e \<Rightarrow> Some (Inl (e, s))
      | Inr company_ids \<Rightarrow>
          after_call (s\<lparr>held_company_ids := company_ids\<rparr>) ''contacts''
            (generate_contacts company_ids count (world_now s))
            (\<lambda>(ids, m) s'. s'\<lparr>held_contact_ids := ids, held_contact_company_map := m\<rparr>))"
  by (simp add: run_table_def Let_def)

lemma run_table_products:
  "run_table ''products'' count s =
     after_call s ''products'' (generate_products count (world_now s))
       (\<lambda>pd s'. s'\<lparr>held_product_data := pd\<rparr>)"
  by (simp add: run_table_def Let_def)

lemma run_table_deals:
  "run_table ''deals'' count s =
     (case require_ids ''companies'' (held_company_ids s) (conn (world_now s)) of
        Inl e \<Rightarrow> Some (Inl (e, s))
      | Inr company_ids \<Rightarrow>
          let s1 = s\<lparr>held_company_ids := company_ids\<rparr>;
              s2 = (if held_contact_ids s1 = []
                    then s1\<lparr>held_contact_ids :=
                              fetch_existing_ids (conn (world_now s)) ''contacts'',
                            held_contact_company_map :=
                              fetch_contact_company_map (conn (world_now s))\<rparr>
                    else s1)
          in if held_contact_ids s2 = [] then Some (Inl (MissingPrerequisiteError ''contacts'', s2))
             else after_call s2 ''deals''
                    (generate_deals company_ids (held_contact_ids s2)
                       (held_contact_company_map s2) count (world_now s))
                    (\<lambda>ids s'. s'\<lparr>held_deal_ids := ids\<rparr>))"
  by (simp add: run_table_def Let_def)

lemma run_table_deal_products:
  "run_table ''deal_products'' count s =
     (case require_ids ''deals'' (held_deal_ids s) (conn (world_now s)) of
        Inl e \<Rightarrow> Some (Inl (e, s))
      | Inr deal_ids \<Rightarrow>
          let s1 = s\<lparr>held_deal_ids := deal_ids\<rparr>;
              s2 = (if held_product_data s1 = []
                    then s1\<lparr>held_product_data := fetch_product_prices (conn (world_now s))\<rparr>
                    else s1)
          in if held_product_data s2 = [] then Some (Inl (MissingPrerequisiteError ''products'', s2))
             else after_call s2 ''deal_products''
                    (generate_deal_products deal_ids (held_product_data s2) count (world_now s))
                    (\<lambda>u s'. s'))"
  by (simp add: run_table_def Let_def)

lemma run_table_activities:
  "run_table ''activities'' count s =
     (case require_ids ''contacts'' (held_contact_ids s) (conn (world_now s)) of
        Inl e \<Rightarrow> Some (Inl (e, s))
      | Inr contact_ids \<Rightarrow>
          after_call (s\<lparr>held_contact_ids := contact_ids\<rparr>) ''activities''
            (generate_activities contact_ids count (world_now s)) (\<lambda>u s'. s'))"
  by (simp add: run_table_def Let_def)

lemma run_table_notes:
  "run_table ''notes'' count s =
     (case require_ids ''contacts'' (held_contact_ids s) (conn (world_now s)) of
        Inl e \<Rightarrow> Some (Inl (e, s))
      | Inr contact_ids \<Rightarrow>
          after_call (s\<lparr>held_contact_ids := contact_ids\<rparr>) ''notes''
            (generate_notes contact_ids count (world_now s)) (\<lambda>u s'. s'))"
  by (simp add: run_table_def Let_def)

lemma run_table_tasks:
  "run_table ''tasks'' count s =
     (case require_ids ''deals'' (held_deal_ids s) (conn (world_now s)) of
        Inl e \<Rightarrow> Some (Inl (e, s))
      | Inr deal_ids \<Rightarrow>
          after_call (s\<lparr>held_deal_ids := deal_ids\<rparr>) ''tasks''
            (generate_tasks deal_ids count (world_now s)) (\<lambda>u s'. s'))"
  by (simp add: run_table_def Let_def)


lemma known_table_cases:
  "t \<in> set ALL_TABLES \<Longrightarrow>
     t = ''companies'' \<or> t = ''contacts'' \<or> t = ''deals'' \<or> t = ''products''
     \<or> t = ''deal_products'' \<or> t = ''activities'' \<or> t = ''notes'' \<or> t = ''tasks''"
  by (simp add: ALL_TABLES_def)

text \<open>
  A step that succeeds has called the generator of the table, which added identifiers
  to that table only, none exactly when the pool it leaves is empty; the pool of any
  other table is as before, or was empty and has been fetched. A step that fails has
  met a lacking prerequisite and has changed neither the trace nor the connection.
\<close>

definition step_ok :: "string \<Rightarrow> run_state \<Rightarrow> run_state \<Rightarrow> bool" where
  "step_ok t s s' =
     (generated s' = generated s @ [t]
      \<and> (\<exists>ids. adds_ids t ids (world_now s) (world_now s') \<and> (ids = [] \<longleftrightarrow> pool s' t = []))
      \<and> (\<forall>T. T \<noteq> t \<longrightarrow> pool s' T = pool s T
             \<or> (pool s T = [] \<and> pool s' T \<noteq> []
                 \<and> fetch_existing_ids (conn (world_now s)) T \<noteq> [])))"

definition step_fail :: "string \<Rightarrow> run_state \<Rightarrow> error \<times> run_state \<Rightarrow> bool" where
  "step_fail t s f =
     (\<exists>d\<in>set (table_deps t). fst f = MissingPrerequisiteError d \<and> lacking s d
        \<and> generated (snd f) = generated s \<and> world_now (snd f) = world_now s)"

definition step_outcome :: "string \<Rightarrow> run_state \<Rightarrow> (error \<times> run_state + run_state) option \<Rightarrow> bool" where
  "step_outcome t s r =
     (if \<exists>d\<in>set (table_deps t). lacking s d
      then \<exists>f. r = Some (Inl f) \<and> step_fail t s f
      else r = None \<or> (\<exists>s'. r = Some (Inr s') \<and> step_ok t s s'))"

lemma after_call_None: "after_call s t r keep = None \<longleftrightarrow> r = None"
  by (auto simp: after_call_def split: option.splits sum.splits)

lemma after_call_Inr:
  "after_call s t r keep = Some (Inr s') \<longleftrightarrow>
     (\<exists>x w'. r = Some (Inr (x, w'))
        \<and> s' = keep x (s\<lparr>generated := generated s @ [t], world_now := w'\<rparr>))"
  by (auto simp: after_call_def split: option.splits sum.splits)

lemma after_call_Inl:
  "after_call s t r keep = Some (Inl f) \<longleftrightarrow>
     (\<exists>e. r = Some (Inl e) \<and> f = (e, s\<lparr>generated := generated s @ [t]\<rparr>))"
  by (auto simp: after_call_def split: option.splits sum.splits)

lemma after_call_outcome:
  assumes "\<And>e. r \<noteq> Some (Inl e)"
    and "\<And>x w'. r = Some (Inr (x, w')) \<Longrightarrow>
           step_ok t s0 (keep x (s\<lparr>generated := generated s @ [t], world_now := w'\<rparr>))"
  shows "after_call s t r keep = None
       \<or> (\<exists>s'. after_call s t r keep = Some (Inr s') \<and> step_ok t s0 s')"
proof (cases r)
  case None
  then show ?thesis by (simp add: after_call_def)
next
  case (Some v)
  show ?thesis
  proof (cases v)
    case (Inl e)
    then show ?thesis using assms(1) [of e] Some by simp
  next
    case (Inr p)
    obtain x w' where p: "p = (x, w')" by (cases p)
    then show ?thesis using assms(2) [of x w'] Some Inr by (simp add: after_call_def)
  qed
qed

lemma step_companies: "step_outcome ''companies'' s (run_table ''companies'' c s)"
proof -
  have "step_ok ''companies'' s
          (s\<lparr>generated := generated s @ [''companies''], world_now := w',
              held_company_ids := ids\<rparr>)"
    if "generate_companies c (world_now s) = Some (Inr (ids, w'))" for ids w'
    using generate_companies_ids [OF that]
    by (auto simp: step_ok_def pool_def)
  moreover have "generate_companies c (world_now s) \<noteq> Some (Inl e)" for e
    using generate_companies_returns [of c "world_now s"] by auto
  ultimately show ?thesis
    unfolding step_outcome_def run_table_companies
    using after_call_outcome [where r = "generate_companies c (world_now s)"
        and t = "''companies''" and s = s and ?s0.0 = s
        and keep = "\<lambda>ids s'. s'\<lparr>held_company_ids := ids\<rparr>"]
    by (simp add: table_deps_simps)
qed

lemma step_products: "step_outcome ''products'' s (run_table ''products'' c s)"
proof -
  have "step_ok ''products'' s
          (s\<lparr>generated := generated s @ [''products''], world_now := w',
              held_product_data := pd\<rparr>)"
    if "generate_products c (world_now s) = Some (Inr (pd, w'))" for pd w'
    using generate_products_ids [OF that]
    by (auto simp: step_ok_def pool_def)
  then show ?thesis
    unfolding step_outcome_def run_table_products
    using after_call_outcome [where r = "generate_products c (world_now s)"
        and t = "''products''" and s = s and ?s0.0 = s
        and keep = "\<lambda>pd s'. s'\<lparr>held_product_data := pd\<rparr>"] generate_products_no_error
    by (simp add: table_deps_simps)
qed

lemma step_contacts: "step_outcome ''contacts'' s (run_table ''contacts'' c s)"
proof (cases "lacking s ''companies''")
  case True
  then have "require_ids ''companies'' (held_company_ids s) (conn (world_now s))
      = Inl (MissingPrerequisiteError ''companies'')"
    by (simp add: lacking_def pool_simps require_ids_def)
  then show ?thesis using True
    by (simp add: step_outcome_def run_table_contacts table_deps_simps step_fail_def)
next
  case False
  then have "\<exists>company_ids.
      require_ids ''companies'' (held_company_ids s) (conn (world_now s)) = Inr company_ids"
    by (auto simp: lacking_def pool_simps require_ids_def)
  then obtain company_ids
    where r: "require_ids ''companies'' (held_company_ids s) (conn (world_now s)) = Inr company_ids"
    by blast
  note q = require_ids_Inr [OF r]
  let ?s1 = "s\<lparr>held_company_ids := company_ids\<rparr>"
  have "step_ok ''contacts'' s
          ((\<lambda>(ids, m) s'. s'\<lparr>held_contact_ids := ids, held_contact_company_map := m\<rparr>) x
             (?s1\<lparr>generated := generated ?s1 @ [''contacts''], world_now := w'\<rparr>))"
    if "generate_contacts company_ids c (world_now s) = Some (Inr (x, w'))" for x w'
  proof -
    obtain ids m where x: "x = (ids, m)" by (cases x)
    from generate_contacts_ids [OF that [unfolded x]] q show ?thesis
      by (auto simp: step_ok_def pool_def x)
  qed
  then have "after_call ?s1 ''contacts'' (generate_contacts company_ids c (world_now s))
        (\<lambda>(ids, m) s'. s'\<lparr>held_contact_ids := ids, held_contact_company_map := m\<rparr>) = None
      \<or> (\<exists>s'. after_call ?s1 ''contacts'' (generate_contacts company_ids c (world_now s))
        (\<lambda>(ids, m) s'. s'\<lparr>held_contact_ids := ids, held_contact_company_map := m\<rparr>)
          = Some (Inr s') \<and> step_ok ''contacts'' s s')"
    using generate_contacts_no_error [of company_ids c "world_now s"] q
    by (intro after_call_outcome) auto
  then show ?thesis using False r
    by (simp add: step_outcome_def run_table_contacts table_deps_simps)
qed

lemma step_activities: "step_outcome ''activities'' s (run_table ''activities'' c s)"
proof (cases "lacking s ''contacts''")
  case True
  then have "require_ids ''contacts'' (held_contact_ids s) (conn (world_now s))
      = Inl (MissingPrerequisiteError ''contacts'')"
    by (simp add: lacking_def pool_simps require_ids_def)
  then show ?thesis using True
    by (simp add: step_outcome_def run_table_activities table_deps_simps step_fail_def)
next
  case False
  then have "\<exists>ids. require_ids ''contacts'' (held_contact_ids s) (conn (world_now s)) = Inr ids"
    by (auto simp: lacking_def pool_simps require_ids_def)
  then obtain ids
    where r: "require_ids ''contacts'' (held_contact_ids s) (conn (world_now s)) = Inr ids" by blast
  note q = require_ids_Inr [OF r]
  from generate_activities_result [OF conjunct1 [OF q], where X = "''activities''" and count = c
      and w = "world_now s"] obtain w'
    where g: "generate_activities ids c (world_now s) = Some (Inr ((), w'))"
      and a: "adds_ids ''activities'' [] (world_now s) w'" by blast
  let ?s' = "s\<lparr>held_contact_ids := ids, generated := generated s @ [''activities''], world_now := w'\<rparr>"
  have "step_ok ''activities'' s ?s'" using a q by (auto simp: step_ok_def pool_def)
  moreover have "run_table ''activities'' c s = Some (Inr ?s')"
    using r g by (simp add: run_table_activities after_call_def)
  ultimately show ?thesis using False
    by (simp add: step_outcome_def table_deps_simps)
qed

lemma step_notes: "step_outcome ''notes'' s (run_table ''notes'' c s)"
proof (cases "lacking s ''contacts''")
  case True
  then have "require_ids ''contacts'' (held_contact_ids s) (conn (world_now s))
      = Inl (MissingPrerequisiteError ''contacts'')"
    by (simp add: lacking_def pool_simps require_ids_def)
  then show ?thesis using True
    by (simp add: step_outcome_def run_table_notes table_deps_simps step_fail_def)
next
  case False
  then have "\<exists>ids. require_ids ''contacts'' (held_contact_ids s) (conn (world_now s)) = Inr ids"
    by (auto simp: lacking_def pool_simps require_ids_def)
  then obtain ids
    where r: "require_ids ''contacts'' (held_contact_ids s) (conn (world_now s)) = Inr ids" by blast
  note q = require_ids_Inr [OF r]
  from generate_notes_result [OF conjunct1 [OF q], where X = "''notes''" and count = c
      and w = "world_now s"] obtain w'
    where g: "generate_notes ids c (world_now s) = Some (Inr ((), w'))"
      and a: "adds_ids ''notes'' [] (world_now s) w'" by blast
  let ?s' = "s\<lparr>held_contact_ids := ids, generated := generated s @ [''notes''], world_now := w'\<rparr>"
  have "step_ok ''notes'' s ?s'" using a q by (auto simp: step_ok_def pool_def)
  moreover have "run_table ''notes'' c s = Some (Inr ?s')"
    using r g by (simp add: run_table_notes after_call_def)
  ultimately show ?thesis using False
    by (simp add: step_outcome_def table_deps_simps)
qed

lemma step_tasks: "step_outcome ''tasks'' s (run_table ''tasks'' c s)"
proof (cases "lacking s ''deals''")
  case True
  then have "require_ids ''deals'' (held_deal_ids s) (conn (world_now s))
      = Inl (MissingPrerequisiteError ''deals'')"
    by (simp add: lacking_def pool_simps require_ids_def)
  then show ?thesis using True
    by (simp add: step_outcome_def run_table_tasks table_deps_simps step_fail_def)
next
  case False
  then have "\<exists>ids. require_ids ''deals'' (held_deal_ids s) (conn (world_now s)) = Inr ids"
    by (auto simp: lacking_def pool_simps require_ids_def)
  then obtain ids
    where r: "require_ids ''deals'' (held_deal_ids s) (conn (world_now s)) = Inr ids" by blast
  note q = require_ids_Inr [OF r]
  from generate_tasks_result [OF conjunct1 [OF q], where X = "''tasks''" and count = c
      and w = "world_now s"] obtain w'
    where g: "generate_tasks ids c (world_now s) = Some (Inr ((), w'))"
      and a: "adds_ids ''tasks'' [] (world_now s) w'" by blast
  let ?s' = "s\<lparr>held_deal_ids := ids, generated := generated s @ [''tasks''], world_now := w'\<rparr>"
  have "step_ok ''tasks'' s ?s'" using a q by (auto simp: step_ok_def pool_def)
  moreover have "run_table ''tasks'' c s = Some (Inr ?s')"
    using r g by (simp add: run_table_tasks after_call_def)
  ultimately show ?thesis using False
    by (simp add: step_outcome_def table_deps_simps)
qed

lemma step_deals: "step_outcome ''deals'' s (run_table ''deals'' c s)"
proof (cases "lacking s ''companies''")
  case True
  then have "require_ids ''companies'' (held_company_ids s) (conn (world_now s))
      = Inl (MissingPrerequisiteError ''companies'')"
    by (simp add: lacking_def pool_simps require_ids_def)
  then show ?thesis using True
    by (simp add: step_outcome_def run_table_deals table_deps_simps step_fail_def)
next
  case False
  then have "\<exists>ids. require_ids ''companies'' (held_company_ids s) (conn (world_now s)) = Inr ids"
    by (auto simp: lacking_def pool_simps require_ids_def)
  then obtain company_ids
    where r: "require_ids ''companies'' (held_company_ids s) (conn (world_now s)) = Inr company_ids"
    by blast
  note q = require_ids_Inr [OF r]
  let ?s1 = "s\<lparr>held_company_ids := company_ids\<rparr>"
  let ?s2 = "if held_contact_ids ?s1 = []
             then ?s1\<lparr>held_contact_ids := fetch_existing_ids (conn (world_now s)) ''contacts'',
                      held_contact_company_map := fetch_contact_company_map (conn (world_now s))\<rparr>
             else ?s1"
  have s2: "generated ?s2 = generated s" "world_now ?s2 = world_now s"
    "held_company_ids ?s2 = company_ids" "held_product_data ?s2 = held_product_data s"
    "held_deal_ids ?s2 = held_deal_ids s"
    "held_contact_ids ?s2 = (if held_contact_ids s = []
        then fetch_existing_ids (conn (world_now s)) ''contacts'' else held_contact_ids s)"
    by simp_all
  show ?thesis
  proof (cases "lacking s ''contacts''")
    case True
    then have "held_contact_ids ?s2 = []" by (simp add: lacking_def pool_simps)
    then have "run_table ''deals'' c s = Some (Inl (MissingPrerequisiteError ''contacts'', ?s2))"
      using r unfolding run_table_deals Let_def by simp
    then show ?thesis using True s2(1,2)
      unfolding step_outcome_def step_fail_def table_deps_simps by auto
  next
    case c: False
    then have ne: "held_contact_ids ?s2 \<noteq> []" by (auto simp: lacking_def pool_simps)
    from generate_deals_returns [of company_ids "held_contact_ids ?s2"
        "held_contact_company_map ?s2" c "world_now s"] q
    obtain ids w' where g: "generate_deals company_ids (held_contact_ids ?s2)
        (held_contact_company_map ?s2) c (world_now s) = Some (Inr (ids, w'))" by blast
    let ?s' = "?s2\<lparr>generated := generated ?s2 @ [''deals''], world_now := w',
                   held_deal_ids := ids\<rparr>"
    have run: "run_table ''deals'' c s = Some (Inr ?s')"
      using r ne g unfolding run_table_deals Let_def by (simp add: after_call_def)
    have a: "adds_ids ''deals'' ids (world_now s) w'" using generate_deals_ids [OF g] .
    have p: "pool ?s' T = pool s T
        \<or> (pool s T = [] \<and> pool ?s' T \<noteq> [] \<and> fetch_existing_ids (conn (world_now s)) T \<noteq> [])"
      if "T \<noteq> ''deals''" for T
      using that q by (auto simp: pool_def)
    have "step_ok ''deals'' s ?s'"
      unfolding step_ok_def
    proof (intro conjI allI impI)
      show "generated ?s' = generated s @ [''deals'']" by simp
      show "\<exists>ids. adds_ids ''deals'' ids (world_now s) (world_now ?s')
              \<and> (ids = [] \<longleftrightarrow> pool ?s' ''deals'' = [])"
        using a by (auto simp: pool_def)
    next
      fix T assume "T \<noteq> ''deals''"
      then show "pool ?s' T = pool s T
        \<or> (pool s T = [] \<and> pool ?s' T \<noteq> [] \<and> fetch_existing_ids (conn (world_now s)) T \<noteq> [])"
        by (rule p)
    qed
    then show ?thesis using run False c
      unfolding step_outcome_def table_deps_simps by simp
  qed
qed

lemma step_deal_products: "step_outcome ''deal_products'' s (run_table ''deal_products'' c s)"
proof (cases "lacking s ''deals''")
  case True
  then have "require_ids ''deals'' (held_deal_ids s) (conn (world_now s))
      = Inl (MissingPrerequisiteError ''deals'')"
    by (simp add: lacking_def pool_simps require_ids_def)
  then show ?thesis using True
    by (simp add: step_outcome_def run_table_deal_products table_deps_simps step_fail_def)
next
  case False
  then have "\<exists>ids. require_ids ''deals'' (held_deal_ids s) (conn (world_now s)) = Inr ids"
    by (auto simp: lacking_def pool_simps require_ids_def)
  then obtain deal_ids
    where r: "require_ids ''deals'' (held_deal_ids s) (conn (world_now s)) = Inr deal_ids"
    by blast
  note q = require_ids_Inr [OF r]
  let ?s1 = "s\<lparr>held_deal_ids := deal_ids\<rparr>"
  let ?s2 = "if held_product_data ?s1 = []
             then ?s1\<lparr>held_product_data := fetch_product_prices (conn (world_now s))\<rparr>
             else ?s1"
  have s2: "generated ?s2 = generated s" "world_now ?s2 = world_now s"
    "held_deal_ids ?s2 = deal_ids" "held_company_ids ?s2 = held_company_ids s"
    "held_contact_ids ?s2 = held_contact_ids s"
    "held_product_data ?s2 = (if held_product_data s = []
        then fetch_product_prices (conn (world_now s)) else held_product_data s)"
    by simp_all
  show ?thesis
  proof (cases "lacking s ''products''")
    case True
    then have "held_product_data ?s2 = []"
      by (simp add: lacking_def pool_simps fetch_product_prices_Nil)
    then have "run_table ''deal_products'' c s
        = Some (Inl (MissingPrerequisiteError ''products'', ?s2))"
      using r unfolding run_table_deal_products Let_def by simp
    then show ?thesis using True s2(1,2)
      unfolding step_outcome_def step_fail_def table_deps_simps by auto
  next
    case c: False
    then have ne: "held_product_data ?s2 \<noteq> []"
      by (auto simp: lacking_def pool_simps fetch_product_prices_Nil)
    have pf: "held_product_data s = [] \<Longrightarrow> fetch_existing_ids (conn (world_now s)) ''products'' \<noteq> []"
      using c by (simp add: lacking_def pool_simps)
    let ?g = "generate_deal_products deal_ids (held_product_data ?s2) c (world_now s)"
    have run: "run_table ''deal_products'' c s
        = after_call ?s2 ''deal_products'' ?g (\<lambda>u s'. s')"
      using r ne unfolding run_table_deal_products Let_def by simp
    have "after_call ?s2 ''deal_products'' ?g (\<lambda>u s'. s') = None
        \<or> (\<exists>s'. after_call ?s2 ''deal_products'' ?g (\<lambda>u s'. s') = Some (Inr s')
              \<and> step_ok ''deal_products'' s s')"
    proof (rule after_call_outcome)
      fix e
      show "?g \<noteq> Some (Inl e)"
        using generate_deal_products_result [of deal_ids "held_product_data ?s2" c "world_now s"
            "Inl e" "''deal_products''"] q ne by auto
    next
      fix x w'
      assume g: "?g = Some (Inr (x, w'))"
      let ?s' = "?s2\<lparr>generated := generated ?s2 @ [''deal_products''], world_now := w'\<rparr>"
      have a: "adds_ids ''deal_products'' [] (world_now s) w'"
        using generate_deal_products_result [OF g, of "''deal_products''"] by simp
      have p: "pool ?s' T = pool s T
          \<or> (pool s T = [] \<and> pool ?s' T \<noteq> [] \<and> fetch_existing_ids (conn (world_now s)) T \<noteq> [])"
        if "T \<noteq> ''deal_products''" for T
        using that q ne pf by (auto simp: pool_def)
      show "step_ok ''deal_products'' s ?s'"
        unfolding step_ok_def
      proof (intro conjI allI impI)
        show "generated ?s' = generated s @ [''deal_products'']" by simp
        show "\<exists>ids. adds_ids ''deal_products'' ids (world_now s) (world_now ?s')
                \<and> (ids = [] \<longleftrightarrow> pool ?s' ''deal_products'' = [])"
          using a by (auto simp: pool_def)
      next
        fix T assume "T \<noteq> ''deal_products''"
        then show "pool ?s' T = pool s T
          \<or> (pool s T = [] \<and> pool ?s' T \<noteq> [] \<and> fetch_existing_ids (conn (world_now s)) T \<noteq> [])"
          by (rule p)
      qed
    qed
    then show ?thesis using run False c
      unfolding step_outcome_def table_deps_simps by simp
  qed
qed

lemma run_table_outcome: "t \<in> set ALL_TABLES \<Longrightarrow> step_outcome t s (run_table t c s)"
  using known_table_cases [of t] step_companies step_contacts step_deals step_products
    step_deal_products step_activities step_notes step_tasks by blast

section \<open>A run of the driver\<close>

text \<open>
  What holds of every state a run reaches from a persisted store: a pool that is not
  empty names a table of which the connection sees rows, and the connection sees the
  rows of the store, no more, in every table whose generator has not been called or
  has left an empty pool.
\<close>

definition run_inv :: "database \<Rightarrow> run_state \<Rightarrow> bool" where
  "run_inv store s =
     ((\<forall>T. pool s T \<noteq> [] \<longrightarrow> fetch_existing_ids (conn (world_now s)) T \<noteq> [])
      \<and> (\<forall>T. T \<notin> set (generated s) \<or> pool s T = [] \<longrightarrow>
             fetch_existing_ids (conn (world_now s)) T = fetch_existing_ids store T))"

lemma run_inv_start: "run_inv store (start_state rnd fk store)"
  by (simp add: run_inv_def start_state_def pool_def)

lemma step_ok_inv:
  assumes ok: "step_ok t s s'" and new: "t \<notin> set (generated s)" and inv: "run_inv store s"
  shows "run_inv store s'"
proof -
  from ok obtain ids
    where g: "generated s' = generated s @ [t]"
      and a: "adds_ids t ids (world_now s) (world_now s')"
      and e: "ids = [] \<longleftrightarrow> pool s' t = []"
      and p: "\<And>T. T \<noteq> t \<Longrightarrow> pool s' T = pool s T
                \<or> (pool s T = [] \<and> pool s' T \<noteq> []
                    \<and> fetch_existing_ids (conn (world_now s)) T \<noteq> [])"
    unfolding step_ok_def by blast
  have f: "fetch_existing_ids (conn (world_now s')) T
      = fetch_existing_ids (conn (world_now s)) T @ (if T = t then ids else [])" for T
    using a by (simp add: adds_ids_def)
  from inv have n: "\<And>T. pool s T \<noteq> [] \<Longrightarrow> fetch_existing_ids (conn (world_now s)) T \<noteq> []"
    and j: "\<And>T. T \<notin> set (generated s) \<or> pool s T = [] \<Longrightarrow>
              fetch_existing_ids (conn (world_now s)) T = fetch_existing_ids store T"
    unfolding run_inv_def by blast+
  have "fetch_existing_ids (conn (world_now s')) T \<noteq> []" if "pool s' T \<noteq> []" for T
  proof (cases "T = t")
    case True
    then show ?thesis using that e f [of T] by simp
  next
    case False
    from p [OF False] that n [of T] show ?thesis using f [of T] False by auto
  qed
  moreover have "fetch_existing_ids (conn (world_now s')) T = fetch_existing_ids store T"
    if "T \<notin> set (generated s') \<or> pool s' T = []" for T
  proof (cases "T = t")
    case True
    then have "pool s' t = []" using that g by simp
    then have "ids = []" using e by simp
    then show ?thesis using f [of T] j [of T] new True by simp
  next
    case False
    have "T \<notin> set (generated s) \<or> pool s T = []"
      using that g p [OF False] by auto
    from j [OF this] show ?thesis using f [of T] False by simp
  qed
  ultimately show ?thesis unfolding run_inv_def by blast
qed

lemma run_table_Inr:
  assumes "run_table t c s = Some (Inr s')" "t \<in> set ALL_TABLES"
  shows "step_ok t s s'"
  using run_table_outcome [OF assms(2), of s c] assms(1)
  by (auto simp: step_outcome_def split: if_splits)


lemma run_table_lacking:
  assumes "d \<in> set (table_deps t)" "lacking s d"
  shows "\<exists>f. run_table t c s = Some (Inl f) \<and> step_fail t s f"
proof -
  have "t \<in> set ALL_TABLES"
  proof (rule ccontr)
    assume "t \<notin> set ALL_TABLES"
    then have "table_deps t = []" by (rule table_deps_unknown)
    then show False using assms(1) by simp
  qed
  from run_table_outcome [OF this, of s c] assms show ?thesis
    by (auto simp: step_outcome_def split: if_splits)
qed

lemma run_tables_append:
  "run_tables pre tc ca s0 = Some (Inr s) \<Longrightarrow>
   run_tables (pre @ rest) tc ca s0 = run_tables rest tc ca s"
proof (induction pre arbitrary: s0)
  case Nil
  then show ?case by simp
next
  case (Cons t pre)
  then show ?case by (auto split: option.splits sum.splits)
qed

lemma run_tables_inv:
  assumes "run_tables pre tc ca s0 = Some (Inr s)"
    and "distinct pre" and "set pre \<subseteq> set ALL_TABLES"
    and "set pre \<inter> set (generated s0) = {}" and "run_inv store s0"
  shows "run_inv store s \<and> generated s = generated s0 @ pre"
  using assms
proof (induction pre arbitrary: s0)
  case Nil
  then show ?case by simp
next
  case (Cons t pre)
  from Cons.prems(1) obtain s1
    where r: "run_table t (final_count tc ca t) s0 = Some (Inr s1)"
      and rest: "run_tables pre tc ca s1 = Some (Inr s)"
    by (auto split: option.splits sum.splits)
  have t: "t \<in> set ALL_TABLES" "t \<notin> set (generated s0)" "t \<notin> set pre"
    using Cons.prems(2,3,4) by auto
  have ok: "step_ok t s0 s1" using run_table_Inr [OF r t(1)] .
  then have g: "generated s1 = generated s0 @ [t]" by (simp add: step_ok_def)
  have i: "run_inv store s1" using step_ok_inv [OF ok t(2) Cons.prems(5)] .
  have "set pre \<inter> set (generated s1) = {}" using g Cons.prems(4) t(3) by auto
  from Cons.IH [OF rest _ _ this i] Cons.prems(2,3) g show ?case by simp
qed

section \<open>The plan of a run\<close>

lemma parse_specs_plan:
  assumes "parse_specs specs dc r = Inr m"
    and "distinct (map fst r)" and "set (map fst r) \<subseteq> set ALL_TABLES"
  shows "distinct (map fst m) \<and> set (map fst m) \<subseteq> set ALL_TABLES"
  using assms
proof (induction specs arbitrary: r)
  case Nil
  then show ?case by simp
next
  case (Cons spec specs)
  from Cons.prems(1) obtain table count
    where e: "spec_entry spec dc = Inr (table, count)" and k: "table \<in> set ALL_TABLES"
      and rest: "parse_specs specs dc (AList.update table count r) = Inr m"
    by (auto split: sum.splits if_splits)
  have "distinct (map fst (AList.update table count r))"
    using Cons.prems(2) by (rule distinct_update)
  moreover have "set (map fst (AList.update table count r)) \<subseteq> set ALL_TABLES"
    using Cons.prems(3) k by (auto simp: update_keys)
  ultimately show ?case using Cons.IH [OF rest] by blast
qed

lemma plan_known:
  assumes "parse_table_spec argument dc = Inr tc"
    and "resolve_dependencies (map fst tc) include_deps = Some plan"
  shows "distinct plan \<and> set plan \<subseteq> set ALL_TABLES"
proof -
  have k: "distinct (map fst tc) \<and> set (map fst tc) \<subseteq> set ALL_TABLES"
    using parse_specs_plan [of "tables_list argument" dc "[]" tc] assms(1)
    by (simp add: parse_table_spec_def)
  show ?thesis
  proof (cases include_deps)
    case False
    then show ?thesis using assms(2) k by (simp add: resolve_dependencies_def)
  next
    case True
    then have "plan = filter (\<lambda>t. t \<in> dep_closure (set (map fst tc))) ALL_TABLES"
      using resolve_known [of "map fst tc"] k assms(2) by simp
    then show ?thesis using ALL_TABLES_distinct by auto
  qed
qed


text \<open>\<open>reached r\<close>: the run \<open>r\<close> has come to its end without a failure.\<close>

definition reached :: "(error \<times> run_state + run_state) option \<Rightarrow> bool" where
  "reached r = (case r of Some (Inr s) \<Rightarrow> True | _ \<Rightarrow> False)"

lemma reached_Some: "reached r \<Longrightarrow> \<exists>s. r = Some (Inr s)"
  by (auto simp: reached_def split: option.splits sum.splits)

lemma sample_reached:
  "reached (run_tables [''products''] [(''products'', 1), (''activities'', 2), (''notes'', 1)]
      None (start_state (\<lambda>i. i div 2) (\<lambda>i. ''Ann'') empty_store))"
  by code_simp

lemma sample_spec:
  "parse_table_spec ''products:1,activities:2,notes:1'' None
     = Inr [(''products'', 1), (''activities'', 2), (''notes'', 1)]"
  by code_simp

subsection \<open>Claims on the driver\<close>

text \<open>
  C5: let the run have processed the tables \<open>pre\<close> of its plan and reached the table
  \<open>t\<close>, and let \<open>dep\<close> be a prerequisite of \<open>t\<close> of which the persisted store has no row and
  whose pool this run has not produced (\<open>dep\<close> is not among \<open>pre\<close>) or has produced empty.
  Then the run fails with \<open>MissingPrerequisiteError\<close> for a prerequisite \<open>d\<close> of \<open>t\<close> that is in
  the same situation, whatever tables \<open>post\<close> follow \<open>t\<close> in the plan; at the failure the
  generators called are those of \<open>pre\<close> and no other, the connection is as \<open>pre\<close> left it,
  and \<^verbatim>\<open>main\<close> ends with the persisted store unchanged: the commit is not reached. The
  source reports the failure by printing \<^verbatim>\<open>Error: No ... found\<close> and calling
  \<^verbatim>\<open>sys.exit(1)\<close>; that exit is the error \<open>MissingPrerequisiteError\<close> here.
\<close>

theorem C5_missing_prerequisite_aborts:
  assumes "parse_table_spec (tables_arg a) (count_arg a) = Inr tc"
    and "resolve_dependencies (map fst tc) (\<not> no_deps a) = Some (pre @ t # post)"
    and "run_tables pre tc (count_arg a) (start_state rnd fk store) = Some (Inr s)"
    and "dep \<in> set (table_deps t)"
    and "dep \<notin> set pre \<or> pool s dep = []"
    and "fetch_existing_ids store dep = []"
  shows "\<exists>d s'. d \<in> set (table_deps t) \<and> pool s d = [] \<and> fetch_existing_ids store d = []
           \<and> run_tables (pre @ t # post) tc (count_arg a) (start_state rnd fk store)
               = Some (Inl (MissingPrerequisiteError d, s'))
           \<and> generated s' = pre \<and> conn (world_now s') = conn (world_now s)
           \<and> main a rnd fk store = Some (Inl (MissingPrerequisiteError d), store)"
proof -
  let ?s0 = "start_state rnd fk store"
  have pl: "distinct (pre @ t # post) \<and> set (pre @ t # post) \<subseteq> set ALL_TABLES"
    using plan_known [OF assms(1,2)] .
  have "run_inv store s \<and> generated s = generated ?s0 @ pre"
  proof (rule run_tables_inv [OF assms(3) _ _ _ run_inv_start])
    show "distinct pre" using pl by simp
    show "set pre \<subseteq> set ALL_TABLES" using pl by simp
    show "set pre \<inter> set (generated ?s0) = {}" by (simp add: start_state_def)
  qed
  then have inv: "run_inv store s" and g: "generated s = pre"
    by (simp_all add: start_state_def)
  from inv have n: "\<And>T. pool s T \<noteq> [] \<Longrightarrow> fetch_existing_ids (conn (world_now s)) T \<noteq> []"
    and j: "\<And>T. T \<notin> set (generated s) \<or> pool s T = [] \<Longrightarrow>
              fetch_existing_ids (conn (world_now s)) T = fetch_existing_ids store T"
    unfolding run_inv_def by blast+
  have "dep \<notin> set (generated s) \<or> pool s dep = []" using assms(5) g by simp
  from j [OF this] have seen: "fetch_existing_ids (conn (world_now s)) dep = []"
    using assms(6) by simp
  then have "pool s dep = []" using n [of dep] by blast
  then have lack: "lacking s dep" using seen by (simp add: lacking_def)
  from run_table_lacking [OF assms(4) lack, of "final_count tc (count_arg a) t"] obtain f
    where f: "run_table t (final_count tc (count_arg a) t) s = Some (Inl f)"
      and sf: "step_fail t s f" by blast
  obtain e s' where fe: "f = (e, s')" by (cases f)
  from sf fe obtain d
    where d: "d \<in> set (table_deps t)" "e = MissingPrerequisiteError d" "lacking s d"
      "generated s' = generated s" "world_now s' = world_now s"
    by (auto simp: step_fail_def)
  have run: "run_tables (pre @ t # post) tc (count_arg a) ?s0
      = Some (Inl (MissingPrerequisiteError d, s'))"
    using run_tables_append [OF assms(3), of "t # post"] f fe d(2) by simp
  have "main a rnd fk store = Some (Inl (MissingPrerequisiteError d), store)"
    using assms(1,2) run by (simp add: main_def)
  moreover have "pool s d = []" using d(3) by (simp add: lacking_def)
  moreover have "fetch_existing_ids store d = []"
    using j [of d] d(3) by (simp add: lacking_def)
  ultimately show ?thesis using d(1,4,5) g run by auto
qed

theorem C5_missing_prerequisite_aborts_witness:
  "parse_table_spec ''products:1,activities:2,notes:1'' None
     = Inr [(''products'', 1), (''activities'', 2), (''notes'', 1)]
   \<and> resolve_dependencies [''products'', ''activities'', ''notes''] False
       = Some ([''products''] @ ''activities'' # [''notes''])
   \<and> reached (run_tables [''products''] [(''products'', 1), (''activities'', 2), (''notes'', 1)]
        None (start_state (\<lambda>i. i div 2) (\<lambda>i. ''Ann'') empty_store))
   \<and> ''contacts'' \<in> set (table_deps ''activities'')
   \<and> ''contacts'' \<notin> set [''products'']
   \<and> fetch_existing_ids empty_store ''contacts'' = []
   \<and> main \<lparr>tables_arg = ''products:1,activities:2,notes:1'', count_arg = None, no_deps = True\<rparr>
        (\<lambda>i. i div 2) (\<lambda>i. ''Ann'') empty_store
       = Some (Inl (MissingPrerequisiteError ''contacts''), empty_store)"
proof -
  let ?a = "\<lparr>tables_arg = ''products:1,activities:2,notes:1'', count_arg = None, no_deps = True\<rparr>"
  let ?tc = "[(''products'', 1 :: int), (''activities'', 2), (''notes'', 1)]"
  have p: "parse_table_spec (tables_arg ?a) (count_arg ?a) = Inr ?tc"
    using sample_spec by simp
  have r: "resolve_dependencies (map fst ?tc) (\<not> no_deps ?a)
      = Some ([''products''] @ ''activities'' # [''notes''])"
    by (simp add: resolve_dependencies_def)
  from reached_Some [OF sample_reached] obtain s
    where s: "run_tables [''products''] ?tc (count_arg ?a)
                (start_state (\<lambda>i. i div 2) (\<lambda>i. ''Ann'') empty_store) = Some (Inr s)"
    by auto
  have d: "''contacts'' \<in> set (table_deps ''activities'')" by (simp add: table_deps_simps)
  have e: "fetch_existing_ids empty_store ''contacts'' = []"
    by (simp add: fetch_existing_ids_def empty_store_def)
  from C5_missing_prerequisite_aborts [OF p r s d _ e] have
    "main ?a (\<lambda>i. i div 2) (\<lambda>i. ''Ann'') empty_store
       = Some (Inl (MissingPrerequisiteError ''contacts''), empty_store)"
    by (auto simp: table_deps_simps)
  then show ?thesis using sample_spec sample_reached r d e by simp
qed







end
